theory Spec2Isabelle
  imports Complex_Main "HOL-Library.AList"
begin

section \<open>Values held by a document\<close>

text \<open>
  A document is Go's \<open>map[string]interface{}\<close>. The dynamic types that the library
  inspects are modelled: the nil interface, bool, string, the twelve numeric types named by
  \<open>isNumeric\<close>, \<open>[]interface{}\<close> and \<open>map[string]interface{}\<close>.

  Numbers: a float64 or float32 is represented by the rational it denotes (NaN and the
  infinities cannot come out of a JSON text and are not represented); an integer of one of
  Go's sized kinds by its mathematical value.

  Maps: a Go map is an association list, looked up with \<open>map_of\<close>, written with
  \<open>AList.update\<close> and deleted from with \<open>AList.delete\<close>. Go leaves the iteration order of a
  map unspecified; where the code ranges over a map the model ranges over the list in its
  order.

  The slices and maps inside a document are never nil here: the JSON decoder and
  \<open>make\<close> build non-nil ones. The root map of a \<open>JsonMapper\<close> is non-nil as well. The
  mapper that the constructors build from the JSON text \<open>null\<close> has a nil root and is no
  value of this type. On it \<open>Find\<close> with a non-empty path, \<open>Remove\<close> and
  \<open>FindAllWithCondition\<close> return what they return on the empty document, and \<open>Find\<close>
  with the empty path returns the nil map. \<open>Add\<close> differs: what it does on that mapper is
  \<open>Add_nil_root\<close> below.

  A document is a tree: no map or backing array is reachable twice. A caller who stores in
  the document a slice obtained from \<open>Find\<close> makes an alias, and the in-place splice of
  \<open>Remove\<close> then changes both places; values are copied here, so the model covers the
  documents without such an alias, those a JSON text decodes to among them.
\<close>

datatype intkind = KInt | KInt8 | KInt16 | KInt32 | KInt64
datatype uintkind = KUint | KUint8 | KUint16 | KUint32 | KUint64

datatype jvalue =
    Nil
  | Bool bool
  | Str string
  | F64 rat
  | F32 rat
  | I intkind int
  | U uintkind nat
  | Arr "jvalue list"
  | Obj "(string \<times> jvalue) list"

type_synonym jmap = "(string \<times> jvalue) list"

text \<open>\<open>JsonMapper\<close> is a struct with the single field \<open>m\<close>; the model identifies the
  mapper with that field.\<close>

type_synonym JsonMapper = jmap

datatype error =
    KeyNotFound string
  | InvalidIndex string
  | IndexOutOfRange int
  | TypeMismatch string
  | UnsupportedOperator string
  | UnsupportedComparison string
  | InvalidNumericType
  | InvalidConditionsFormat
  | NoValidCondition

text \<open>What a call does: it returns a value, returns an error value, or panics.\<close>

datatype 'a outcome = Return 'a | Fail error | Panic

section \<open>Library functions the code calls\<close>

subsection \<open>strconv.Atoi\<close>

text \<open>
  \<open>strconv.Atoi\<close> on a 64-bit platform: an optional sign, then decimal digits. A syntax
  error yields 0; a value out of the range of int yields the nearest bound and a range
  error. The digit loop stops at the first overflow, as \<open>ParseUint\<close> does.
\<close>

datatype numerror = ErrSyntax | ErrRange

definition is_digit :: "char \<Rightarrow> bool" where
  "is_digit c = (48 \<le> (of_char c :: nat) \<and> (of_char c :: nat) \<le> 57)"

definition digit_val :: "char \<Rightarrow> int" where
  "digit_val c = (of_char c :: int) - 48"

definition maxUint64 :: int where
  "maxUint64 = 18446744073709551615"

fun parseUint :: "int \<Rightarrow> string \<Rightarrow> int \<times> numerror option" where
  "parseUint n [] = (n, None)"
| "parseUint n (c # cs) =
     (if \<not> is_digit c then (0, Some ErrSyntax)
      else if n \<ge> maxUint64 div 10 + 1 then (maxUint64, Some ErrRange)
      else if n * 10 + digit_val c > maxUint64 then (maxUint64, Some ErrRange)
      else parseUint (n * 10 + digit_val c) cs)"

definition atoi :: "string \<Rightarrow> int \<times> numerror option" where
  "atoi s =
     (if s = [] then (0, Some ErrSyntax)
      else
        let neg = (hd s = CHR ''-'');
            ds = (if hd s = CHR ''+'' \<or> hd s = CHR ''-'' then tl s else s)
        in if ds = [] then (0, Some ErrSyntax)
           else (case parseUint 0 ds of
                   (un, Some ErrSyntax) \<Rightarrow> (0, Some ErrSyntax)
                 | (un, _) \<Rightarrow>
                     if \<not> neg \<and> un \<ge> 9223372036854775808 then (9223372036854775807, Some ErrRange)
                     else if neg \<and> un > 9223372036854775808 then (- 9223372036854775808, Some ErrRange)
                     else (if neg then - un else un, None)))"

subsection \<open>strings.Split on "."\<close>

fun split_dot :: "string \<Rightarrow> string list" where
  "split_dot [] = [[]]"
| "split_dot (c # cs) =
     (if c = CHR ''.'' then [] # split_dot cs
      else (case split_dot cs of t # ts \<Rightarrow> (c # t) # ts | [] \<Rightarrow> [[c]]))"

subsection \<open>fmt.Sprintf("%d") on a non-negative int\<close>

fun itoa :: "nat \<Rightarrow> string" where
  "itoa n = (if n < 10 then [char_of (48 + n)] else itoa (n div 10) @ [char_of (48 + n mod 10)])"

declare itoa.simps [simp del]

section \<open>Path strings\<close>

text \<open>
  \<open>convertBracketsToDots\<close> replaces every leftmost non-overlapping match of the regular
  expression \<open>\[\-?(\d+)\]\<close> by a dot followed by the match without its brackets.
  \<open>bracket_index cs\<close> matches the expression after its opening bracket: it returns the
  sign and digits, and the rest of the input after the closing bracket.
\<close>

definition bracket_index :: "string \<Rightarrow> (string \<times> string) option" where
  "bracket_index cs =
     (let sign = (if cs \<noteq> [] \<and> hd cs = CHR ''-'' then ''-'' else '''');
          cs1 = (if cs \<noteq> [] \<and> hd cs = CHR ''-'' then tl cs else cs);
          ds = takeWhile is_digit cs1;
          r = dropWhile is_digit cs1
      in if ds \<noteq> [] \<and> r \<noteq> [] \<and> hd r = CHR '']'' then Some (sign @ ds, tl r) else None)"

function convertBracketsToDots :: "string \<Rightarrow> string" where
  "convertBracketsToDots [] = []"
| "convertBracketsToDots (c # cs) =
     (if c = CHR ''[''
      then (case bracket_index cs of
              Some (tok, r) \<Rightarrow> CHR ''.'' # tok @ convertBracketsToDots r
            | None \<Rightarrow> c # convertBracketsToDots cs)
      else c # convertBracketsToDots cs)"
  by pat_completeness auto
termination
proof (relation "measure length")
  fix c :: char and cs x2 x y
  assume "bracket_index cs = Some x2" and "(x, y) = x2"
  then have r: "bracket_index cs = Some (x, y)" by simp
  have d: "length (dropWhile is_digit xs) \<le> length xs" for xs
    by (rule length_dropWhile_le)
  from r d [of cs] d [of "tl cs"] have "length y < Suc (length cs)"
    by (auto simp: bracket_index_def Let_def split: if_splits)
  then show "(y, c # cs) \<in> measure length" by simp
qed auto

definition path_keys :: "string \<Rightarrow> string list" where
  "path_keys keyPath = split_dot (convertBracketsToDots keyPath)"

section \<open>Find\<close>

fun find_loop :: "jvalue \<Rightarrow> string list \<Rightarrow> jvalue outcome" where
  "find_loop current [] = Return current"
| "find_loop current (key # keys) =
     (case current of
        Obj currentType \<Rightarrow>
          (case map_of currentType key of
             Some v \<Rightarrow> find_loop v keys
           | None \<Rightarrow> Fail (KeyNotFound key))
      | Arr currentType \<Rightarrow>
          (case atoi key of
             (index, Some err) \<Rightarrow> Fail (InvalidIndex key)
           | (index, None) \<Rightarrow>
               if index < 0 \<or> index \<ge> int (length currentType)
               then Fail (IndexOutOfRange index)
               else find_loop (currentType ! nat index) keys)
      | _ \<Rightarrow> Return current)"

definition Find :: "JsonMapper \<Rightarrow> string \<Rightarrow> jvalue outcome" where
  "Find j keyPath =
     (if keyPath = [] then Return (Obj j)
      else find_loop (Obj j) (path_keys keyPath))"

section \<open>Positions in the document\<close>

text \<open>
  Go's \<open>current\<close>, \<open>parent\<close> and \<open>grandParent\<close> are references to maps and slices inside
  the tree rooted at \<open>j.m\<close>: a write through one of them is a write into the document.
  The model keeps the document and the position of the referenced node, the steps that lead
  to it from the root; a write through the reference is an update of the document at that
  position.
\<close>

datatype step = Key string | Index nat

fun upd_at :: "step list \<Rightarrow> (jvalue \<Rightarrow> jvalue) \<Rightarrow> jvalue \<Rightarrow> jvalue" where
  "upd_at [] f v = f v"
| "upd_at (Key k # ps) f (Obj m) =
     (case map_of m k of
        Some c \<Rightarrow> Obj (AList.update k (upd_at ps f c) m)
      | None \<Rightarrow> Obj m)"
| "upd_at (Index i # ps) f (Arr xs) =
     (if i < length xs then Arr (xs[i := upd_at ps f (xs ! i)]) else Arr xs)"
| "upd_at (p # ps) f v = v"

text \<open>The node at a position, if the steps lead to one.\<close>

fun get_at :: "step list \<Rightarrow> jvalue \<Rightarrow> jvalue option" where
  "get_at [] v = Some v"
| "get_at (Key k # ps) (Obj m) =
     (case map_of m k of Some c \<Rightarrow> get_at ps c | None \<Rightarrow> None)"
| "get_at (Index i # ps) (Arr xs) = (if i < length xs then get_at ps (xs ! i) else None)"
| "get_at (p # ps) v = None"

definition set_key :: "string \<Rightarrow> jvalue \<Rightarrow> jvalue \<Rightarrow> jvalue" where
  \<comment> \<open>\<open>m[key] = x\<close> on the map at a position\<close>
  "set_key key x v = (case v of Obj m \<Rightarrow> Obj (AList.update key x m) | _ \<Rightarrow> v)"

definition del_key :: "string \<Rightarrow> jvalue \<Rightarrow> jvalue" where
  \<comment> \<open>\<open>delete(m, key)\<close> on the map at a position\<close>
  "del_key key v = (case v of Obj m \<Rightarrow> Obj (AList.delete key m) | _ \<Rightarrow> v)"

definition set_elem :: "nat \<Rightarrow> jvalue \<Rightarrow> jvalue \<Rightarrow> jvalue" where
  \<comment> \<open>\<open>s[index] = x\<close> on the slice at a position: a write into its backing array\<close>
  "set_elem i x v = (case v of Arr xs \<Rightarrow> Arr (xs[i := x]) | _ \<Rightarrow> v)"

definition doc_upd :: "JsonMapper \<Rightarrow> step list \<Rightarrow> (jvalue \<Rightarrow> jvalue) \<Rightarrow> JsonMapper" where
  "doc_upd j pos f = (case upd_at pos f (Obj j) of Obj j' \<Rightarrow> j' | _ \<Rightarrow> j)"

section \<open>Add\<close>

text \<open>
  The walk of \<open>grandParent\<close> from the root along \<open>keys[1 : i-1]\<close>. The reference is
  \<open>None\<close> for the nil map that a failed comma-ok assertion leaves; the result is \<open>None\<close>
  when a single-value type assertion panics.
\<close>

fun gp_walk :: "jmap option \<Rightarrow> string list \<Rightarrow> jmap option option" where
  "gp_walk grandParent [] = Some grandParent"
| "gp_walk grandParent (k # ks) =
     (case grandParent of
        None \<Rightarrow> None
      | Some g \<Rightarrow>
          (case map_of g k of
             Some (Obj g') \<Rightarrow> gp_walk (Some g') ks
           | _ \<Rightarrow> None))"

text \<open>
  The re-attachment of lines 130 to 137, for \<open>i > 0\<close>; \<open>pre\<close> is \<open>keys[0 : i]\<close>, so
  \<open>keys[0]\<close> is \<open>hd pre\<close>, \<open>keys[i-1]\<close> is \<open>last pre\<close> and \<open>keys[1 : i-1]\<close> is
  \<open>butlast (tl pre)\<close>, a slice expression that panics when \<open>i = 1\<close>.
\<close>

definition reattach :: "JsonMapper \<Rightarrow> string list \<Rightarrow> jvalue \<Rightarrow> JsonMapper \<times> unit outcome" where
  "reattach j pre current =
     (let parentKey = last pre;
          grandParent = (case map_of j (hd pre) of Some (Obj g) \<Rightarrow> Some g | _ \<Rightarrow> None)
      in if length pre < 2 then (j, Panic)
         else (case gp_walk grandParent (butlast (tl pre)) of
                 None \<Rightarrow> (j, Panic)
               | Some None \<Rightarrow> (j, Panic)
               | Some (Some g) \<Rightarrow>
                   (doc_upd j (map Key (hd pre # butlast (tl pre))) (set_key parentKey current),
                    Return ())))"

text \<open>
  The loop of \<open>Add\<close>; \<open>pre\<close> is \<open>keys[0 : i]\<close> and \<open>pos\<close> the position of \<open>current\<close>.
  An element assignment \<open>parent[index] = value\<close> writes into the backing array that the
  map's slice shares, so the document sees it at once. \<open>append\<close> returns a slice of its
  own: the document sees it only once the re-attachment has stored it in the map. The
  single-value type assertions on \<open>current\<close> panic when it is not a map.
\<close>

fun add_loop ::
  "JsonMapper \<Rightarrow> string list \<Rightarrow> step list \<Rightarrow> jvalue \<Rightarrow> string list \<Rightarrow> jvalue
     \<Rightarrow> JsonMapper \<times> unit outcome" where
  "add_loop j pre pos current [] v = (j, Return ())"
| "add_loop j pre pos current [key] v =
     (case current of
        Obj parent \<Rightarrow> (doc_upd j pos (set_key key v), Return ())
      | Arr parent \<Rightarrow>
          (case atoi key of
             (index, Some err) \<Rightarrow> (j, Fail (InvalidIndex key))
           | (index, None) \<Rightarrow>
               if index = - 1 then
                 (if pre \<noteq> [] then reattach j pre (Arr (parent @ [v])) else (j, Return ()))
               else if 0 \<le> index \<and> index < int (length parent) then
                 (let j1 = doc_upd j pos (set_elem (nat index) v)
                  in if pre \<noteq> [] then reattach j1 pre (Arr (parent[nat index := v]))
                     else (j1, Return ()))
               else (j, Fail (IndexOutOfRange index)))
      | _ \<Rightarrow> (j, Return ()))"
| "add_loop j pre pos current (key # k2 # ks) v =
     (case current of
        Obj cm \<Rightarrow>
          (case map_of cm key of
             Some next \<Rightarrow> add_loop j (pre @ [key]) (pos @ [Key key]) next (k2 # ks) v
           | None \<Rightarrow>
               (case atoi key of
                  (index, None) \<Rightarrow>
                    (case current of
                       Arr nextSlice \<Rightarrow>
                         if 0 \<le> index \<and> index < int (length nextSlice)
                         then add_loop j (pre @ [key]) (pos @ [Index (nat index)])
                                (nextSlice ! nat index) (k2 # ks) v
                         else (j, Fail (InvalidIndex key))
                     | _ \<Rightarrow> (j, Fail (InvalidIndex key)))
                | (index, Some err) \<Rightarrow>
                    add_loop (doc_upd j pos (set_key key (Obj []))) (pre @ [key])
                      (pos @ [Key key]) (Obj []) (k2 # ks) v))
      | _ \<Rightarrow> (j, Panic))"

definition Add :: "JsonMapper \<Rightarrow> string \<Rightarrow> jvalue \<Rightarrow> JsonMapper \<times> unit outcome" where
  "Add j keyPath v = add_loop j [] [] (Obj j) (path_keys keyPath) v"

text \<open>
  \<open>Add\<close> on a mapper whose root map is nil. The interface \<open>current\<close> then holds a nil
  map: the type assertions on it succeed and a lookup finds nothing, an assignment to one of
  its entries panics, and the comma-ok assertion to a slice fails.
\<close>

fun add_nil_root :: "string list \<Rightarrow> unit outcome" where
  "add_nil_root [] = Return ()"
| "add_nil_root [key] = Panic"
| "add_nil_root (key # k2 # ks) =
     (case atoi key of
        (index, None) \<Rightarrow> Fail (InvalidIndex key)
      | (index, Some err) \<Rightarrow> Panic)"

definition Add_nil_root :: "string \<Rightarrow> jvalue \<Rightarrow> unit outcome" where
  "Add_nil_root keyPath v = add_nil_root (path_keys keyPath)"

section \<open>Remove\<close>

text \<open>
  \<open>parent\<close> is \<open>None\<close> while the Go variable is nil; once set it is the position of the
  map together with \<open>parentKey\<close>. An unset \<open>parentKey\<close> is the empty string.
\<close>

fun remove_loop ::
  "JsonMapper \<Rightarrow> step list \<Rightarrow> jmap \<Rightarrow> (step list \<times> string) option \<Rightarrow> string list
     \<Rightarrow> JsonMapper \<times> unit outcome" where
  "remove_loop j pos current parent [] =
     (case parent of None \<Rightarrow> (j, Return ()) | Some p \<Rightarrow> (j, Panic))"
| "remove_loop j pos current parent [key] =
     (case parent of
        None \<Rightarrow> (j, Return ())
      | Some (ppos, parentKey) \<Rightarrow> (doc_upd j ppos (del_key key), Return ()))"
| "remove_loop j pos current parent (key # nxt # rest) =
     (let parent' = (if rest = [] then Some (pos, key) else parent);
          parentKey = (case parent' of Some (ppos, pk) \<Rightarrow> pk | None \<Rightarrow> [])
      in case map_of current key of
           Some (Obj currentElement) \<Rightarrow>
             remove_loop j (pos @ [Key key]) currentElement parent' (nxt # rest)
         | Some (Arr currentElement) \<Rightarrow>
             (let index0 = fst (atoi nxt);
                  err = snd (atoi nxt);
                  index = (if err = None \<and> index0 = - 1
                           then int (length currentElement) - 1 else index0)
              in if index < 0 \<or> index \<ge> int (length currentElement)
                 then (j, Fail (IndexOutOfRange index))
                 else if rest = [] then
                   (doc_upd j pos
                      (set_key parentKey
                         (Arr (take (nat index) currentElement
                               @ drop (nat index + 1) currentElement))),
                    Return ())
                 else (case currentElement ! nat index of
                         Obj nextElement \<Rightarrow>
                           remove_loop j (pos @ [Key key, Index (nat index)]) nextElement
                             parent' (nxt # rest)
                       | _ \<Rightarrow> (j, Fail (TypeMismatch nxt))))
         | _ \<Rightarrow> (j, Fail (TypeMismatch key)))"

definition Remove :: "JsonMapper \<Rightarrow> string \<Rightarrow> JsonMapper \<times> unit outcome" where
  "Remove j keyPath = remove_loop j [] j None (path_keys keyPath)"

text \<open>
  Where the loop of \<open>Remove\<close> stands when its iteration \<open>i = len(keys)-2\<close> starts:
  the position of the map that \<open>current\<close> refers to, and that map. The iterations before
  it are those of \<open>remove_loop\<close>; the result is \<open>None\<close> when one of them returns, or
  when the path has fewer than two keys.
\<close>

fun remove_walk :: "step list \<Rightarrow> jmap \<Rightarrow> string list \<Rightarrow> (step list \<times> jmap) option" where
  "remove_walk pos current [key, t] = Some (pos, current)"
| "remove_walk pos current (key # nxt # rest) =
     (case map_of current key of
        Some (Obj currentElement) \<Rightarrow> remove_walk (pos @ [Key key]) currentElement (nxt # rest)
      | Some (Arr currentElement) \<Rightarrow>
          (let index0 = fst (atoi nxt);
               err = snd (atoi nxt);
               index = (if err = None \<and> index0 = - 1
                        then int (length currentElement) - 1 else index0)
           in if index < 0 \<or> index \<ge> int (length currentElement) then None
              else (case currentElement ! nat index of
                      Obj nextElement \<Rightarrow>
                        remove_walk (pos @ [Key key, Index (nat index)]) nextElement (nxt # rest)
                    | _ \<Rightarrow> None))
      | _ \<Rightarrow> None)"
| "remove_walk pos current keys = None"

section \<open>Conditions\<close>

subsection \<open>Reflection\<close>

datatype gotype =
  TBool | TString | TFloat64 | TFloat32 | TInt intkind | TUint uintkind | TSlice | TMap

fun typeOf :: "jvalue \<Rightarrow> gotype option" where
  \<comment> \<open>\<open>reflect.TypeOf\<close>; nil for the nil interface\<close>
  "typeOf Nil = None"
| "typeOf (Bool b) = Some TBool"
| "typeOf (Str s) = Some TString"
| "typeOf (F64 r) = Some TFloat64"
| "typeOf (F32 r) = Some TFloat32"
| "typeOf (I k n) = Some (TInt k)"
| "typeOf (U k n) = Some (TUint k)"
| "typeOf (Arr xs) = Some TSlice"
| "typeOf (Obj m) = Some TMap"

fun kind_string :: "jvalue \<Rightarrow> string" where
  \<comment> \<open>\<open>reflect.ValueOf(v).Kind().String()\<close>\<close>
  "kind_string Nil = ''invalid''"
| "kind_string (Bool b) = ''bool''"
| "kind_string (Str s) = ''string''"
| "kind_string (F64 r) = ''float64''"
| "kind_string (F32 r) = ''float32''"
| "kind_string (I KInt n) = ''int''"
| "kind_string (I KInt8 n) = ''int8''"
| "kind_string (I KInt16 n) = ''int16''"
| "kind_string (I KInt32 n) = ''int32''"
| "kind_string (I KInt64 n) = ''int64''"
| "kind_string (U KUint n) = ''uint''"
| "kind_string (U KUint8 n) = ''uint8''"
| "kind_string (U KUint16 n) = ''uint16''"
| "kind_string (U KUint32 n) = ''uint32''"
| "kind_string (U KUint64 n) = ''uint64''"
| "kind_string (Arr xs) = ''slice''"
| "kind_string (Obj m) = ''map''"

text \<open>
  \<open>reflect.DeepEqual\<close> on the values of the model: equal dynamic types, slices of equal
  length with deeply equal elements, maps of equal length whose keys map to deeply equal
  values. The keys of an association list are distinct, as those of a Go map.
\<close>

fun deepEqual :: "jvalue \<Rightarrow> jvalue \<Rightarrow> bool"
  and deepEqual_slice :: "jvalue list \<Rightarrow> jvalue list \<Rightarrow> bool"
  and deepEqual_map :: "jmap \<Rightarrow> jmap \<Rightarrow> bool" where
  "deepEqual Nil y = (y = Nil)"
| "deepEqual (Bool a) y = (y = Bool a)"
| "deepEqual (Str a) y = (y = Str a)"
| "deepEqual (F64 a) y = (y = F64 a)"
| "deepEqual (F32 a) y = (y = F32 a)"
| "deepEqual (I k a) y = (y = I k a)"
| "deepEqual (U k a) y = (y = U k a)"
| "deepEqual (Arr xs) y =
     (case y of Arr ys \<Rightarrow> length xs = length ys \<and> deepEqual_slice xs ys | _ \<Rightarrow> False)"
| "deepEqual (Obj m1) y =
     (case y of Obj m2 \<Rightarrow> length m1 = length m2 \<and> deepEqual_map m1 m2 | _ \<Rightarrow> False)"
| "deepEqual_slice [] ys = True"
| "deepEqual_slice (x # xs) ys =
     (case ys of [] \<Rightarrow> False | y # ys' \<Rightarrow> deepEqual x y \<and> deepEqual_slice xs ys')"
| "deepEqual_map [] m2 = True"
| "deepEqual_map (e # es) m2 =
     ((case map_of m2 (fst e) of Some w \<Rightarrow> deepEqual (snd e) w | None \<Rightarrow> False)
      \<and> deepEqual_map es m2)"

subsection \<open>Structural equality\<close>

text \<open>
  The shape of a value, after the data model of the specification: a Sequence is an
  ordered list of values and a Mapping a function from keys to values, so that the order of
  its entries is irrelevant. Two values are structurally equal when their shapes are
  equal. \<open>deepEqual\<close> above is the code; this is what it is compared with.
\<close>

datatype svalue =
    VNil
  | VBool bool
  | VStr string
  | VF64 rat
  | VF32 rat
  | VI intkind int
  | VU uintkind nat
  | VSeq "svalue list"
  | VMap "string \<Rightarrow> svalue option"

fun shape :: "jvalue \<Rightarrow> svalue"
  and shape_list :: "jvalue list \<Rightarrow> svalue list"
  and shape_map :: "jmap \<Rightarrow> string \<Rightarrow> svalue option" where
  "shape Nil = VNil"
| "shape (Bool b) = VBool b"
| "shape (Str s) = VStr s"
| "shape (F64 r) = VF64 r"
| "shape (F32 r) = VF32 r"
| "shape (I k n) = VI k n"
| "shape (U k n) = VU k n"
| "shape (Arr xs) = VSeq (shape_list xs)"
| "shape (Obj m) = VMap (\<lambda>k. shape_map m k)"
| "shape_list [] = []"
| "shape_list (x # xs) = shape x # shape_list xs"
| "shape_map [] k = None"
| "shape_map (e # es) k =
     (if k = fst e then Some (shape (snd e)) else shape_map es k)"

text \<open>
  The keys of every map of a value are distinct: the invariant of the representation of a
  Go map by an association list.
\<close>

fun unique_keys :: "jvalue \<Rightarrow> bool"
  and unique_keys_list :: "jvalue list \<Rightarrow> bool"
  and unique_keys_map :: "jmap \<Rightarrow> bool" where
  "unique_keys (Arr xs) = unique_keys_list xs"
| "unique_keys (Obj m) = unique_keys_map m"
| "unique_keys v = True"
| "unique_keys_list [] = True"
| "unique_keys_list (x # xs) = (unique_keys x \<and> unique_keys_list xs)"
| "unique_keys_map [] = True"
| "unique_keys_map (e # es) =
     (fst e \<notin> fst ` set es \<and> unique_keys (snd e) \<and> unique_keys_map es)"

subsection \<open>Numeric coercion\<close>

text \<open>
  The conversion of an integer to float64 rounds to 53 significant bits, to nearest and
  ties to even; every integer of 64 bits is within the range of float64.
\<close>

function bitlen :: "int \<Rightarrow> nat" where
  "bitlen n = (if n \<le> 0 then 0 else Suc (bitlen (n div 2)))"
  by pat_completeness auto
termination
  by (relation "measure nat") auto

declare bitlen.simps [simp del]

definition float64_of_int :: "int \<Rightarrow> rat" where
  "float64_of_int n =
     (let a = \<bar>n\<bar>; e = bitlen a - 53
      in if e = 0 then of_int n
         else
           let q = a div 2 ^ e; r = a mod 2 ^ e; h = 2 ^ (e - 1);
               q' = (if r > h \<or> (r = h \<and> odd q) then q + 1 else q)
           in of_int (sgn n * (q' * 2 ^ e)))"

fun convertToFloat64 :: "jvalue \<Rightarrow> rat outcome" where
  "convertToFloat64 (F64 v) = Return v"
| "convertToFloat64 (F32 v) = Return v"
| "convertToFloat64 (I k n) = Return (float64_of_int n)"
| "convertToFloat64 (U k n) = Return (float64_of_int (int n))"
| "convertToFloat64 v = Fail InvalidNumericType"

fun isNumeric :: "jvalue \<Rightarrow> bool" where
  "isNumeric (F64 v) = True"
| "isNumeric (F32 v) = True"
| "isNumeric (I k n) = True"
| "isNumeric (U k n) = True"
| "isNumeric v = False"

subsection \<open>checkCondition\<close>

text \<open>
  \<open>reflect.Value.Interface\<close> panics on the zero Value, which \<open>reflect.ValueOf\<close> returns
  for the nil interface.
\<close>

definition compareNumericUsingReflect :: "jvalue \<Rightarrow> jvalue \<Rightarrow> string \<Rightarrow> bool outcome" where
  "compareNumericUsingReflect vValue vThreshold op =
     (if vValue = Nil then Panic
      else case convertToFloat64 vValue of
        Fail e \<Rightarrow> Fail e
      | Panic \<Rightarrow> Panic
      | Return valueFloat \<Rightarrow>
          (if vThreshold = Nil then Panic
           else case convertToFloat64 vThreshold of
             Fail e \<Rightarrow> Fail e
           | Panic \<Rightarrow> Panic
           | Return thresholdFloat \<Rightarrow>
               if op = ''lt'' then Return (valueFloat < thresholdFloat)
               else if op = ''lte'' then Return (valueFloat \<le> thresholdFloat)
               else if op = ''gt'' then Return (valueFloat > thresholdFloat)
               else if op = ''gte'' then Return (valueFloat \<ge> thresholdFloat)
               else Fail (UnsupportedOperator op)))"

definition checkCondition :: "jvalue \<Rightarrow> string \<Rightarrow> jvalue \<Rightarrow> bool outcome" where
  "checkCondition v op threshold =
     (if op = ''eq'' then
        (if isNumeric v \<and> isNumeric threshold then
           (case convertToFloat64 v of
              Fail e \<Rightarrow> Fail e
            | Panic \<Rightarrow> Panic
            | Return valueFloat \<Rightarrow>
                (case convertToFloat64 threshold of
                   Fail e \<Rightarrow> Fail e
                 | Panic \<Rightarrow> Panic
                 | Return thresholdFloat \<Rightarrow> Return (valueFloat = thresholdFloat)))
         else Return (deepEqual v threshold))
      else if op = ''neq'' then
        (if typeOf v \<noteq> typeOf threshold then Return True
         else Return (\<not> deepEqual v threshold))
      else if op = ''lt'' \<or> op = ''lte'' \<or> op = ''gt'' \<or> op = ''gte'' then
        (if kind_string v = ''int'' \<or> kind_string v = ''float64'' \<and>
              (kind_string threshold = ''int'' \<or> kind_string threshold = ''float64'')
         then compareNumericUsingReflect v threshold op
         else Fail (UnsupportedComparison op))
      else Fail (UnsupportedOperator op))"

subsection \<open>evaluateCondition\<close>

text \<open>
  The argument \<open>conditions\<close> is an \<open>interface{}\<close>: a \<open>map[string]interface{}\<close> is
  \<open>Plain (Obj m)\<close>, a \<open>map[string][]map[string]interface{}\<close> is \<open>Logical m\<close>, and a
  value of another type is \<open>Plain v\<close> for a \<open>v\<close> that is not a map.
\<close>

datatype conditions = Plain jvalue | Logical "(string \<times> jmap list) list"

fun and_entries :: "jvalue \<Rightarrow> jmap \<Rightarrow> bool outcome" where
  "and_entries v [] = Return True"
| "and_entries v (e # es) =
     (case checkCondition v (fst e) (snd e) of
        Return True \<Rightarrow> and_entries v es
      | r \<Rightarrow> r)"

fun and_loop :: "jvalue \<Rightarrow> jmap list \<Rightarrow> bool outcome" where
  "and_loop v [] = Return True"
| "and_loop v (conditionMap # subConditions) =
     (case and_entries v conditionMap of
        Return True \<Rightarrow> and_loop v subConditions
      | r \<Rightarrow> r)"

fun or_entries :: "jvalue \<Rightarrow> jmap \<Rightarrow> bool outcome" where
  "or_entries v [] = Return False"
| "or_entries v (e # es) =
     (case checkCondition v (fst e) (snd e) of
        Return False \<Rightarrow> or_entries v es
      | r \<Rightarrow> r)"

fun or_loop :: "jvalue \<Rightarrow> jmap list \<Rightarrow> bool outcome" where
  "or_loop v [] = Return False"
| "or_loop v (conditionMap # subConditions) =
     (case or_entries v conditionMap of
        Return False \<Rightarrow> or_loop v subConditions
      | r \<Rightarrow> r)"

fun xor_entries :: "jvalue \<Rightarrow> nat \<Rightarrow> jmap \<Rightarrow> nat outcome" where
  "xor_entries v satisfiedCount [] = Return satisfiedCount"
| "xor_entries v satisfiedCount (e # es) =
     (case checkCondition v (fst e) (snd e) of
        Fail err \<Rightarrow> Fail err
      | Panic \<Rightarrow> Panic
      | Return satisfied \<Rightarrow>
          xor_entries v (if satisfied then satisfiedCount + 1 else satisfiedCount) es)"

fun xor_loop :: "jvalue \<Rightarrow> nat \<Rightarrow> jmap list \<Rightarrow> nat outcome" where
  "xor_loop v satisfiedCount [] = Return satisfiedCount"
| "xor_loop v satisfiedCount (conditionMap # subConditions) =
     (case xor_entries v satisfiedCount conditionMap of
        Fail err \<Rightarrow> Fail err
      | Panic \<Rightarrow> Panic
      | Return c \<Rightarrow> xor_loop v c subConditions)"

fun nor_entries :: "jvalue \<Rightarrow> jmap \<Rightarrow> bool outcome" where
  "nor_entries v [] = Return True"
| "nor_entries v (e # es) =
     (case checkCondition v (fst e) (snd e) of
        Fail err \<Rightarrow> Fail err
      | Panic \<Rightarrow> Panic
      | Return satisfied \<Rightarrow> if satisfied then Return False else nor_entries v es)"

fun nor_loop :: "jvalue \<Rightarrow> jmap list \<Rightarrow> bool outcome" where
  "nor_loop v [] = Return True"
| "nor_loop v (conditionMap # subConditions) =
     (case nor_entries v conditionMap of
        Return True \<Rightarrow> nor_loop v subConditions
      | r \<Rightarrow> r)"

definition evaluateCondition :: "jvalue \<Rightarrow> conditions \<Rightarrow> bool outcome" where
  "evaluateCondition v conditions =
     (case conditions of
        Plain (Obj cond) \<Rightarrow>
          (case cond of
             [] \<Rightarrow> Fail NoValidCondition
           | e # es \<Rightarrow> checkCondition v (fst e) (snd e))
      | Logical cond \<Rightarrow>
          (case cond of
             [] \<Rightarrow> Fail NoValidCondition
           | l # ls \<Rightarrow>
               (let logicalOp = fst l; subConditions = snd l
                in if logicalOp = ''and'' \<or> logicalOp = ''AND'' then and_loop v subConditions
                   else if logicalOp = ''or'' \<or> logicalOp = ''OR'' then or_loop v subConditions
                   else if logicalOp = ''xor'' \<or> logicalOp = ''XOR'' then
                     (case xor_loop v 0 subConditions of
                        Fail err \<Rightarrow> Fail err
                      | Panic \<Rightarrow> Panic
                      | Return satisfiedCount \<Rightarrow> Return (satisfiedCount = 1))
                   else if logicalOp = ''nor'' \<or> logicalOp = ''NOR'' then nor_loop v subConditions
                   else Fail (UnsupportedOperator logicalOp)))
      | Plain other \<Rightarrow> Fail InvalidConditionsFormat)"

section \<open>FindAllWithCondition\<close>

text \<open>
  The closure \<open>evaluate\<close> appends to the captured slice \<open>results\<close>, which the model
  threads through. A recursive call's returned error is dropped by the caller, as in the
  source; a panic unwinds through every caller.
\<close>

fun evaluate :: "conditions \<Rightarrow> jvalue \<Rightarrow> string \<Rightarrow> string list \<Rightarrow> string list \<times> unit outcome"
  and evaluate_map :: "conditions \<Rightarrow> jmap \<Rightarrow> string \<Rightarrow> string list \<Rightarrow> string list \<times> unit outcome"
  and evaluate_slice ::
    "conditions \<Rightarrow> jvalue list \<Rightarrow> nat \<Rightarrow> string \<Rightarrow> string list \<Rightarrow> string list \<times> unit outcome"
  where
  "evaluate conds (Obj currentType) currentPath results =
     evaluate_map conds currentType currentPath results"
| "evaluate conds (Arr currentType) currentPath results =
     evaluate_slice conds currentType 0 currentPath results"
| "evaluate conds current currentPath results =
     (case evaluateCondition current conds of
        Fail err \<Rightarrow> (results, Fail err)
      | Panic \<Rightarrow> (results, Panic)
      | Return satisfied \<Rightarrow>
          (if satisfied then results @ [currentPath] else results, Return ()))"
| "evaluate_map conds [] currentPath results = (results, Return ())"
| "evaluate_map conds (e # es) currentPath results =
     (let newPath = (if currentPath \<noteq> [] then currentPath @ ''.'' else currentPath) @ fst e
      in case evaluate conds (snd e) newPath results of
           (results', Panic) \<Rightarrow> (results', Panic)
         | (results', r) \<Rightarrow> evaluate_map conds es currentPath results')"
| "evaluate_slice conds [] i currentPath results = (results, Return ())"
| "evaluate_slice conds (v # vs) i currentPath results =
     (let newPath = currentPath @ ''['' @ itoa i @ '']''
      in case evaluate conds v newPath results of
           (results', Panic) \<Rightarrow> (results', Panic)
         | (results', r) \<Rightarrow> evaluate_slice conds vs (Suc i) currentPath results')"

definition FindAllWithCondition ::
  "JsonMapper \<Rightarrow> string \<Rightarrow> conditions \<Rightarrow> string list outcome" where
  "FindAllWithCondition j keyPath conds =
     (case (if keyPath = [] then Return (Obj j) else Find j keyPath) of
        Fail err \<Rightarrow> Fail err
      | Panic \<Rightarrow> Panic
      | Return startValue \<Rightarrow>
          (case evaluate conds startValue keyPath [] of
             (results, Fail err) \<Rightarrow> Fail err
           | (results, Panic) \<Rightarrow> Panic
           | (results, Return u) \<Rightarrow> Return results))"

section \<open>Keys of a path\<close>

lemma split_dot_ne: "split_dot s \<noteq> []"
  by (induction s) (auto split: list.splits)

lemma path_keys_ne: "path_keys P \<noteq> []"
  by (simp add: path_keys_def split_dot_ne)

lemma path_keys_Nil: "path_keys [] = [[]]"
  by (simp add: path_keys_def)

section \<open>Logical combinators and comparisons\<close>

lemma xor_entries_Return:
  "xor_entries v c es = Return n \<longleftrightarrow>
     (\<forall>e\<in>set es. \<exists>b. checkCondition v (fst e) (snd e) = Return b) \<and>
     n = c + length (filter (\<lambda>e. checkCondition v (fst e) (snd e) = Return True) es)"
proof (induction es arbitrary: c)
  case Nil
  show ?case by auto
next
  case (Cons e es)
  show ?case
  proof (cases "checkCondition v (fst e) (snd e)")
    case (Return b)
    then show ?thesis using Cons.IH by (cases b) auto
  next
    case (Fail x)
    then show ?thesis by auto
  next
    case Panic
    then show ?thesis by auto
  qed
qed

lemma xor_loop_Return:
  "xor_loop v c subs = Return n \<longleftrightarrow>
     (\<forall>e\<in>set (concat subs). \<exists>b. checkCondition v (fst e) (snd e) = Return b) \<and>
     n = c + length (filter (\<lambda>e. checkCondition v (fst e) (snd e) = Return True) (concat subs))"
proof (induction subs arbitrary: c)
  case Nil
  show ?case by auto
next
  case (Cons m subs)
  show ?case
  proof (cases "xor_entries v c m")
    case (Return k)
    then show ?thesis
      using Cons.IH [of k] xor_entries_Return [of v c m k]
      by (auto simp: ball_Un)
  next
    case (Fail x)
    then show ?thesis using xor_entries_Return [of v c m] by (auto simp: ball_Un)
  next
    case Panic
    then show ?thesis using xor_entries_Return [of v c m] by (auto simp: ball_Un)
  qed
qed

lemma xor_entries_append:
  "xor_entries v c (xs @ ys) =
     (case xor_entries v c xs of
        Return n \<Rightarrow> xor_entries v n ys
      | Fail e \<Rightarrow> Fail e
      | Panic \<Rightarrow> Panic)"
  by (induction xs arbitrary: c) (auto split: outcome.splits)

lemma xor_loop_concat: "xor_loop v c subs = xor_entries v c (concat subs)"
  by (induction subs arbitrary: c) (auto simp: xor_entries_append split: outcome.splits)

lemma xor_entries_stops:
  assumes "\<forall>e'\<in>set es1. \<exists>b. checkCondition v (fst e') (snd e') = Return b"
    and "checkCondition v (fst e) (snd e) = Fail err"
  shows "xor_entries v c (es1 @ e # es2) = Fail err"
proof -
  from assms(1) obtain n where "xor_entries v c es1 = Return n"
    using xor_entries_Return [of v c es1] by blast
  then show ?thesis
    using assms(2) by (simp add: xor_entries_append)
qed

text \<open>
  C7, as the code has it. For every leaf value \<open>v\<close>: \<open>and\<close> over an empty list of
  subconditions evaluates to true, and so does \<open>nor\<close>. For \<open>xor\<close> over a list: when
  every check of an entry of the list returns, the evaluation returns whether exactly one
  entry of the whole list is satisfied, so it returns false for none and for more than one;
  when a check fails and the checks before it return, the evaluation returns the error of
  that check. Hence \<open>xor\<close> evaluates to true exactly when no check fails and exactly one
  entry is satisfied.
\<close>

theorem C7_logical_combinators:
  "evaluateCondition v (Logical [(''and'', [])]) = Return True \<and>
   evaluateCondition v (Logical [(''nor'', [])]) = Return True \<and>
   ((\<forall>e\<in>set (concat subs). \<exists>b. checkCondition v (fst e) (snd e) = Return b) \<longrightarrow>
      evaluateCondition v (Logical [(''xor'', subs)]) =
        Return (length (filter (\<lambda>e. checkCondition v (fst e) (snd e) = Return True)
                          (concat subs)) = 1)) \<and>
   (\<forall>es1 e es2 err.
      concat subs = es1 @ e # es2 \<and>
      (\<forall>e'\<in>set es1. \<exists>b. checkCondition v (fst e') (snd e') = Return b) \<and>
      checkCondition v (fst e) (snd e) = Fail err \<longrightarrow>
      evaluateCondition v (Logical [(''xor'', subs)]) = Fail err) \<and>
   (evaluateCondition v (Logical [(''xor'', subs)]) = Return True \<longleftrightarrow>
      (\<forall>e\<in>set (concat subs). \<exists>b. checkCondition v (fst e) (snd e) = Return b) \<and>
      length (filter (\<lambda>e. checkCondition v (fst e) (snd e) = Return True) (concat subs)) = 1)"
proof -
  have x: "evaluateCondition v (Logical [(''xor'', subs)]) =
      (case xor_entries v 0 (concat subs) of Fail err \<Rightarrow> Fail err | Panic \<Rightarrow> Panic
       | Return satisfiedCount \<Rightarrow> Return (satisfiedCount = 1))"
    by (simp add: evaluateCondition_def xor_loop_concat)
  have a: "evaluateCondition v (Logical [(''and'', [])]) = Return True"
    "evaluateCondition v (Logical [(''nor'', [])]) = Return True"
    by (simp_all add: evaluateCondition_def)
  have b: "evaluateCondition v (Logical [(''xor'', subs)]) =
        Return (length (filter (\<lambda>e. checkCondition v (fst e) (snd e) = Return True)
                          (concat subs)) = 1)"
    if "\<forall>e\<in>set (concat subs). \<exists>b. checkCondition v (fst e) (snd e) = Return b"
  proof -
    from that have "xor_entries v 0 (concat subs) =
        Return (0 + length (filter (\<lambda>e. checkCondition v (fst e) (snd e) = Return True)
                          (concat subs)))"
      using xor_entries_Return [of v 0 "concat subs"] by blast
    then show ?thesis by (simp add: x)
  qed
  have c: "evaluateCondition v (Logical [(''xor'', subs)]) = Fail err"
    if "concat subs = es1 @ e # es2"
      "\<forall>e'\<in>set es1. \<exists>b. checkCondition v (fst e') (snd e') = Return b"
      "checkCondition v (fst e) (snd e) = Fail err" for es1 e es2 err
    using xor_entries_stops [OF that(2) that(3), of 0 es2] that(1) by (simp add: x)
  have d: "evaluateCondition v (Logical [(''xor'', subs)]) = Return True \<longleftrightarrow>
      (\<forall>e\<in>set (concat subs). \<exists>b. checkCondition v (fst e) (snd e) = Return b) \<and>
      length (filter (\<lambda>e. checkCondition v (fst e) (snd e) = Return True) (concat subs)) = 1"
    using xor_entries_Return [of v 0 "concat subs"]
    by (auto simp: x split: outcome.splits)
  from a b c d show ?thesis by blast
qed

theorem C7_logical_combinators_witness:
  "checkCondition (F64 5) ''eq'' (F64 5) = Return True \<and>
   checkCondition (F64 5) ''eq'' (F64 7) = Return False \<and>
   checkCondition (F64 5) ''bogus'' (F64 1) = Fail (UnsupportedOperator ''bogus'') \<and>
   evaluateCondition (F64 5) (Logical [(''xor'', [[(''eq'', F64 5)], [(''eq'', F64 7)]])])
     = Return True \<and>
   evaluateCondition (F64 5) (Logical [(''xor'', [[(''eq'', F64 5)], [(''eq'', F64 5)]])])
     = Return False \<and>
   evaluateCondition (F64 5) (Logical [(''xor'', [[(''eq'', F64 7)]])]) = Return False \<and>
   evaluateCondition (F64 5)
       (Logical [(''xor'', [[(''eq'', F64 5)], [(''bogus'', F64 1)], [(''eq'', F64 7)]])])
     = Fail (UnsupportedOperator ''bogus'')"
proof -
  have h: "checkCondition (F64 5) ''eq'' (F64 5) = Return True"
    "checkCondition (F64 5) ''eq'' (F64 7) = Return False"
    "checkCondition (F64 5) ''bogus'' (F64 1) = Fail (UnsupportedOperator ''bogus'')"
    by (simp_all add: checkCondition_def)
  have a1: "\<forall>e\<in>set (concat [[(''eq'', F64 5)], [(''eq'', F64 7)]]).
      \<exists>b. checkCondition (F64 5) (fst e) (snd e) = Return b"
    by (auto simp: checkCondition_def)
  have r1: "evaluateCondition (F64 5) (Logical [(''xor'', [[(''eq'', F64 5)], [(''eq'', F64 7)]])])
     = Return True"
    using C7_logical_combinators [of "F64 5" "[[(''eq'', F64 5)], [(''eq'', F64 7)]]",
        THEN conjunct2, THEN conjunct2, THEN conjunct1, THEN mp, OF a1]
    by (simp add: checkCondition_def)
  have a2: "\<forall>e\<in>set (concat [[(''eq'', F64 5)], [(''eq'', F64 5)]]).
      \<exists>b. checkCondition (F64 5) (fst e) (snd e) = Return b"
    by (auto simp: checkCondition_def)
  have r2: "evaluateCondition (F64 5) (Logical [(''xor'', [[(''eq'', F64 5)], [(''eq'', F64 5)]])])
     = Return False"
    using C7_logical_combinators [of "F64 5" "[[(''eq'', F64 5)], [(''eq'', F64 5)]]",
        THEN conjunct2, THEN conjunct2, THEN conjunct1, THEN mp, OF a2]
    by (simp add: checkCondition_def)
  have a3: "\<forall>e\<in>set (concat [[(''eq'', F64 7)]]).
      \<exists>b. checkCondition (F64 5) (fst e) (snd e) = Return b"
    by (auto simp: checkCondition_def)
  have r3: "evaluateCondition (F64 5) (Logical [(''xor'', [[(''eq'', F64 7)]])]) = Return False"
    using C7_logical_combinators [of "F64 5" "[[(''eq'', F64 7)]]",
        THEN conjunct2, THEN conjunct2, THEN conjunct1, THEN mp, OF a3]
    by (simp add: checkCondition_def)
  have a4: "concat [[(''eq'', F64 5)], [(''bogus'', F64 1)], [(''eq'', F64 7)]]
          = [(''eq'', F64 5)] @ (''bogus'', F64 1) # [(''eq'', F64 7)] \<and>
      (\<forall>e'\<in>set [(''eq'', F64 5)]. \<exists>b. checkCondition (F64 5) (fst e') (snd e') = Return b) \<and>
      checkCondition (F64 5) (fst (''bogus'', F64 1)) (snd (''bogus'', F64 1))
        = Fail (UnsupportedOperator ''bogus'')"
    by (auto simp: checkCondition_def)
  have r4: "evaluateCondition (F64 5)
      (Logical [(''xor'', [[(''eq'', F64 5)], [(''bogus'', F64 1)], [(''eq'', F64 7)]])])
     = Fail (UnsupportedOperator ''bogus'')"
    by (rule C7_logical_combinators
      [of "F64 5" "[[(''eq'', F64 5)], [(''bogus'', F64 1)], [(''eq'', F64 7)]]",
        THEN conjunct2, THEN conjunct2, THEN conjunct2, THEN conjunct1,
        THEN spec, THEN spec, THEN spec, THEN spec, THEN mp, OF a4])
  from h r1 r2 r3 r4 show ?thesis by simp
qed

text \<open>
  C7, as stated, fails where a subcondition cannot be evaluated: on the leaf 5 the list
  \<open>[{eq: 5}, {bogus: 1}]\<close> has exactly one satisfied subcondition, and \<open>xor\<close> over it
  returns the error of the second one instead of true.
\<close>

theorem C7_xor_counterexample:
  "checkCondition (F64 5) ''eq'' (F64 5) = Return True \<and>
   checkCondition (F64 5) ''bogus'' (F64 1) = Fail (UnsupportedOperator ''bogus'') \<and>
   evaluateCondition (F64 5) (Logical [(''xor'', [[(''eq'', F64 5)], [(''bogus'', F64 1)]])])
     = Fail (UnsupportedOperator ''bogus'')"
  by code_simp

lemma deepEqual_typeOf: "deepEqual v t \<Longrightarrow> typeOf v = typeOf t"
  by (cases v; cases t) auto

lemma shape_map_conv: "shape_map m k = map_option shape (map_of m k)"
  by (induction m) auto

lemma unique_keys_map_distinct: "unique_keys_map m \<Longrightarrow> distinct (map fst m)"
  by (induction m) auto

lemma unique_keys_map_lookup:
  "unique_keys_map m \<Longrightarrow> map_of m k = Some w \<Longrightarrow> unique_keys w"
  by (induction m) (auto split: if_splits)

lemma unique_keys_map_length:
  "unique_keys_map m \<Longrightarrow> card (dom (map_of m)) = length m"
  using unique_keys_map_distinct [of m]
  by (simp add: dom_map_of_conv_image_fst distinct_card flip: set_map)

text \<open>Two maps with distinct keys have the same shape iff they have the same number of
  entries and every entry of the first has an entry of the same shape in the second.\<close>

lemma shape_map_eq:
  assumes u1: "unique_keys_map m1" and u2: "unique_keys_map m2"
  shows "(length m1 = length m2 \<and>
          (\<forall>k x. map_of m1 k = Some x \<longrightarrow>
                 (\<exists>w. map_of m2 k = Some w \<and> shape x = shape w)))
         \<longleftrightarrow> (\<lambda>k. shape_map m1 k) = (\<lambda>k. shape_map m2 k)"
proof
  assume a: "length m1 = length m2 \<and>
          (\<forall>k x. map_of m1 k = Some x \<longrightarrow>
                 (\<exists>w. map_of m2 k = Some w \<and> shape x = shape w))"
  then have sub: "dom (map_of m1) \<subseteq> dom (map_of m2)"
    by (auto simp: dom_def)
  have "card (dom (map_of m1)) = card (dom (map_of m2))"
    using a unique_keys_map_length [OF u1] unique_keys_map_length [OF u2] by simp
  with sub have d: "dom (map_of m1) = dom (map_of m2)"
    by (simp add: card_subset_eq finite_dom_map_of)
  show "(\<lambda>k. shape_map m1 k) = (\<lambda>k. shape_map m2 k)"
  proof
    fix k
    show "shape_map m1 k = shape_map m2 k"
    proof (cases "map_of m1 k")
      case None
      then have "k \<notin> dom (map_of m1)" by (simp add: domIff)
      then have "k \<notin> dom (map_of m2)" using d by simp
      then have "map_of m2 k = None" by (simp add: domIff)
      with None show ?thesis by (simp add: shape_map_conv)
    next
      case (Some x)
      with a obtain w where "map_of m2 k = Some w" "shape x = shape w" by blast
      with Some show ?thesis by (simp add: shape_map_conv)
    qed
  qed
next
  assume e: "(\<lambda>k. shape_map m1 k) = (\<lambda>k. shape_map m2 k)"
  then have ek: "map_option shape (map_of m1 k) = map_option shape (map_of m2 k)" for k
    by (metis shape_map_conv)
  have "dom (map_of m1) = dom (map_of m2)"
  proof (rule set_eqI)
    fix k
    show "k \<in> dom (map_of m1) \<longleftrightarrow> k \<in> dom (map_of m2)"
      using ek [of k] by (cases "map_of m1 k"; cases "map_of m2 k") (auto simp: dom_def)
  qed
  then have l: "length m1 = length m2"
    using unique_keys_map_length [OF u1] unique_keys_map_length [OF u2] by simp
  have "\<exists>w. map_of m2 k = Some w \<and> shape x = shape w" if "map_of m1 k = Some x" for k x
    using ek [of k] that by (cases "map_of m2 k") auto
  with l show "length m1 = length m2 \<and>
          (\<forall>k x. map_of m1 k = Some x \<longrightarrow>
                 (\<exists>w. map_of m2 k = Some w \<and> shape x = shape w))"
    by blast
qed

lemma deepEqual_shape:
  "unique_keys v \<Longrightarrow> unique_keys y \<Longrightarrow> deepEqual v y = (shape v = shape y)"
  "unique_keys_list xs \<Longrightarrow> unique_keys_list ys \<Longrightarrow>
     (length xs = length ys \<and> deepEqual_slice xs ys) = (shape_list xs = shape_list ys)"
  "unique_keys_map m1 \<Longrightarrow> unique_keys_map m2 \<Longrightarrow>
     deepEqual_map m1 m2 =
       (\<forall>k x. map_of m1 k = Some x \<longrightarrow> (\<exists>w. map_of m2 k = Some w \<and> shape x = shape w))"
proof (induction v y and xs ys and m1 m2 rule: deepEqual_deepEqual_slice_deepEqual_map.induct)
  case (1 y)
  then show ?case by (cases y) auto
next
  case (2 a y)
  then show ?case by (cases y) auto
next
  case (3 a y)
  then show ?case by (cases y) auto
next
  case (4 a y)
  then show ?case by (cases y) auto
next
  case (5 a y)
  then show ?case by (cases y) auto
next
  case (6 k a y)
  then show ?case by (cases y) auto
next
  case (7 k a y)
  then show ?case by (cases y) auto
next
  case (8 xs y)
  then show ?case by (cases y) auto
next
  case (9 m1 y)
  show ?case
  proof (cases y)
    case (Obj m2)
    with 9 have u1: "unique_keys_map m1" and u2: "unique_keys_map m2" by simp_all
    from 9(1) [OF Obj u1 u2] shape_map_eq [OF u1 u2] Obj
    show ?thesis by simp
  qed simp_all
next
  case (10 ys)
  then show ?case by (cases ys) auto
next
  case (11 x xs ys)
  then show ?case by (cases ys) auto
next
  case (12 m2)
  then show ?case by simp
next
  case (13 e es m2)
  from 13(3) have ne: "fst e \<notin> fst ` set es" and ue: "unique_keys (snd e)"
    and ues: "unique_keys_map es" by simp_all
  have rest: "deepEqual_map es m2 =
      (\<forall>k x. map_of es k = Some x \<longrightarrow> (\<exists>w. map_of m2 k = Some w \<and> shape x = shape w))"
    by (rule 13(2) [OF ues 13(4)])
  have hd: "(case map_of m2 (fst e) of Some w \<Rightarrow> deepEqual (snd e) w | None \<Rightarrow> False) =
      (\<exists>w. map_of m2 (fst e) = Some w \<and> shape (snd e) = shape w)"
  proof (cases "map_of m2 (fst e)")
    case None
    then show ?thesis by simp
  next
    case (Some w)
    have "unique_keys w" by (rule unique_keys_map_lookup [OF 13(4) Some])
    from 13(1) [OF Some ue this] Some show ?thesis by simp
  qed
  have keys: "map_of es k = Some x \<Longrightarrow> k \<noteq> fst e" for k x
    using ne by (metis domI dom_map_of_conv_image_fst)
  have m: "map_of (e # es) k = (if k = fst e then Some (snd e) else map_of es k)" for k
    by (cases e) simp
  have "deepEqual_map (e # es) m2 =
      ((\<exists>w. map_of m2 (fst e) = Some w \<and> shape (snd e) = shape w) \<and>
       (\<forall>k x. map_of es k = Some x \<longrightarrow> (\<exists>w. map_of m2 k = Some w \<and> shape x = shape w)))"
    using hd rest by simp
  also have "\<dots> =
      (\<forall>k x. map_of (e # es) k = Some x \<longrightarrow> (\<exists>w. map_of m2 k = Some w \<and> shape x = shape w))"
    using keys by (auto simp: m)
  finally show ?case .
qed

text \<open>
  C8. For every value and operand whose dynamic types differ, \<open>neq\<close> returns true without
  comparing contents; when the dynamic types are equal it returns true iff the two are not
  structurally equal, that is iff their shapes differ; for a value that is neither a
  Sequence nor a Mapping this is to say that the two are different values. In particular
  \<open>checkCondition(5, "neq", "5")\<close> returns true.
\<close>

theorem C8_neq:
  "(typeOf v \<noteq> typeOf t \<longrightarrow> checkCondition v ''neq'' t = Return True) \<and>
   (typeOf v = typeOf t \<longrightarrow> unique_keys v \<longrightarrow> unique_keys t \<longrightarrow>
      checkCondition v ''neq'' t = Return (shape v \<noteq> shape t)) \<and>
   ((\<forall>xs. v \<noteq> Arr xs) \<and> (\<forall>m. v \<noteq> Obj m) \<longrightarrow>
      checkCondition v ''neq'' t = Return (v \<noteq> t)) \<and>
   checkCondition (I KInt 5) ''neq'' (Str ''5'') = Return True"
proof -
  have a: "typeOf v \<noteq> typeOf t \<Longrightarrow> checkCondition v ''neq'' t = Return True"
    by (simp add: checkCondition_def)
  have b: "checkCondition v ''neq'' t = Return (shape v \<noteq> shape t)"
    if "typeOf v = typeOf t" "unique_keys v" "unique_keys t"
    using that deepEqual_shape(1) [of v t] by (simp add: checkCondition_def)
  have c: "checkCondition v ''neq'' t = Return (v \<noteq> t)"
    if "(\<forall>xs. v \<noteq> Arr xs) \<and> (\<forall>m. v \<noteq> Obj m)"
    using that by (cases v; cases t) (auto simp: checkCondition_def)
  have d: "checkCondition (I KInt 5) ''neq'' (Str ''5'') = Return True"
    by (simp add: checkCondition_def)
  from a b c d show ?thesis by blast
qed

theorem C8_neq_witness:
  "typeOf (F64 5) \<noteq> typeOf (Str ''5'') \<and>
   checkCondition (F64 5) ''neq'' (Str ''5'') = Return True \<and>
   typeOf (Obj [(''a'', F64 1), (''b'', Arr [F64 2])]) = typeOf (Obj [(''b'', Arr [F64 2]), (''a'', F64 1)]) \<and>
   unique_keys (Obj [(''a'', F64 1), (''b'', Arr [F64 2])]) \<and>
   unique_keys (Obj [(''b'', Arr [F64 2]), (''a'', F64 1)]) \<and>
   checkCondition (Obj [(''a'', F64 1), (''b'', Arr [F64 2])]) ''neq''
     (Obj [(''b'', Arr [F64 2]), (''a'', F64 1)]) = Return False \<and>
   checkCondition (Obj [(''a'', F64 1), (''b'', Arr [F64 2])]) ''neq''
     (Obj [(''b'', Arr [F64 3]), (''a'', F64 1)]) = Return True \<and>
   checkCondition (F64 5) ''neq'' (F64 5) = Return False \<and>
   checkCondition (F64 5) ''neq'' (F64 6) = Return True"
proof -
  let ?m1 = "Obj [(''a'', F64 1), (''b'', Arr [F64 2])]"
  let ?m2 = "Obj [(''b'', Arr [F64 2]), (''a'', F64 1)]"
  let ?m3 = "Obj [(''b'', Arr [F64 3]), (''a'', F64 1)]"
  have s12: "shape ?m1 = shape ?m2"
    by (auto simp: fun_eq_iff)
  have s13: "shape ?m1 \<noteq> shape ?m3"
  proof
    assume "shape ?m1 = shape ?m3"
    then have "(\<lambda>k. shape_map [(''a'', F64 1), (''b'', Arr [F64 2])] k)
             = (\<lambda>k. shape_map [(''b'', Arr [F64 3]), (''a'', F64 1)] k)"
      by simp
    then have "shape_map [(''a'', F64 1), (''b'', Arr [F64 2])] ''b''
             = shape_map [(''b'', Arr [F64 3]), (''a'', F64 1)] ''b''"
      by (rule fun_cong)
    then show False by simp
  qed
  from C8_neq [of "F64 5" "Str ''5''"] C8_neq [of ?m1 ?m2] C8_neq [of ?m1 ?m3]
    C8_neq [of "F64 5" "F64 5"] C8_neq [of "F64 5" "F64 6"] s12 s13
  show ?thesis by simp
qed

text \<open>
  C6 at concrete inputs. An int64 against a float64, and a float64 against a uint8, are
  numeric on both sides and the ordering operators reject them; an int against a string
  fails inside the numeric coercion, not with the comparison error; an int against the nil
  interface panics.
\<close>

theorem C6_ordering_rejects_numeric:
  "isNumeric (I KInt64 5) \<and> isNumeric (F64 3) \<and>
   checkCondition (I KInt64 5) ''gt'' (F64 3) = Fail (UnsupportedComparison ''gt'') \<and>
   isNumeric (U KUint8 3) \<and>
   checkCondition (F64 5) ''lt'' (U KUint8 3) = Fail (UnsupportedComparison ''lt'') \<and>
   \<not> isNumeric (Str ''x'') \<and>
   checkCondition (I KInt 5) ''gte'' (Str ''x'') = Fail InvalidNumericType \<and>
   checkCondition (I KInt 5) ''lte'' Nil = Panic"
  by code_simp

section \<open>Panics and swallowed errors\<close>

text \<open>\<open>Find\<close> and \<open>Remove\<close> return a value or an error on every input.\<close>

lemma find_loop_never_panics: "find_loop current keys \<noteq> Panic"
proof (induction keys arbitrary: current)
  case Nil
  show ?case by simp
next
  case (Cons key keys)
  show ?case
    using Cons.IH
    by (cases current) (auto split: option.splits prod.splits)
qed

lemma Find_never_panics: "Find j keyPath \<noteq> Panic"
  by (simp add: Find_def find_loop_never_panics)

lemma remove_loop_never_panics:
  "keys \<noteq> [] \<Longrightarrow> snd (remove_loop j pos current parent keys) \<noteq> Panic"
proof (induction keys arbitrary: pos current parent)
  case Nil
  then show ?case by simp
next
  case (Cons key keys)
  show ?case
  proof (cases keys)
    case Nil
    then show ?thesis by (auto split: option.splits)
  next
    case (Cons nxt rest)
    then have ne: "keys \<noteq> []" by simp
    show ?thesis
      unfolding Cons
      using Cons.IH [OF ne, unfolded Cons]
      by (auto simp: Let_def split: option.splits jvalue.splits)
  qed
qed

lemma Remove_never_panics: "snd (Remove j keyPath) \<noteq> Panic"
  by (simp add: Remove_def remove_loop_never_panics path_keys_ne)

text \<open>On a nil root \<open>Add\<close> never succeeds.\<close>

lemma Add_nil_root_never_succeeds: "Add_nil_root keyPath v \<noteq> Return ()"
proof -
  have "add_nil_root ks \<noteq> Return ()" if "ks \<noteq> []" for ks
    using that by (cases ks rule: add_nil_root.cases) (auto split: prod.splits option.splits)
  then show ?thesis by (simp add: Add_nil_root_def path_keys_ne)
qed

text \<open>
  \<open>Add\<close> with a path of two steps panics whenever the first step holds a Sequence and
  the second is the append sentinel or an index in range.
\<close>

lemma Add_two_steps_on_sequence:
  assumes "map_of j k = Some (Arr xs)" and "atoi t = (i, None)"
    and "i = - 1 \<or> (0 \<le> i \<and> i < int (length xs))"
  shows "snd (add_loop j [] [] (Obj j) [k, t] v) = Panic"
  using assms by (auto simp: reattach_def Let_def)

text \<open>
  C2 at concrete inputs. \<open>Add\<close> panics on a path of two steps whose last step is applied
  to a Sequence, with the append sentinel and with an index in range (the element is written
  before the panic), and on a path with an intermediate step that resolves to a Sequence or
  to a scalar. \<open>FindAllWithCondition\<close> panics on an int leaf, as \<open>Add\<close> stores one from
  a Go literal, compared by an ordering operator with the nil interface.
\<close>

theorem C2_add_panics:
  "Add [(''a'', Arr [F64 1])] ''a.-1'' (F64 2) = ([(''a'', Arr [F64 1])], Panic) \<and>
   Add [(''a'', Arr [F64 1])] ''a[0]'' (F64 2) = ([(''a'', Arr [F64 2])], Panic) \<and>
   Add [(''a'', Arr [Obj []])] ''a.0.x'' (F64 2) = ([(''a'', Arr [Obj []])], Panic) \<and>
   Add [(''a'', F64 1)] ''a.x.y'' (F64 2) = ([(''a'', F64 1)], Panic) \<and>
   FindAllWithCondition [(''a'', I KInt 5)] '''' (Plain (Obj [(''gt'', Nil)])) = Panic"
  by code_simp

lemma evaluate_map_never_fails:
  "snd (evaluate_map conds m path results) \<noteq> Fail e"
  by (induction m arbitrary: results) (auto simp: Let_def split: prod.splits outcome.splits)

lemma evaluate_slice_never_fails:
  "snd (evaluate_slice conds xs i path results) \<noteq> Fail e"
  by (induction xs arbitrary: i results) (auto simp: Let_def split: prod.splits outcome.splits)

lemma FindAllWithCondition_swallows:
  assumes "keyPath \<noteq> []" and "Find j keyPath = Return start"
    and "(\<exists>m. start = Obj m) \<or> (\<exists>xs. start = Arr xs)"
  shows "FindAllWithCondition j keyPath conds \<noteq> Fail e"
proof
  assume f: "FindAllWithCondition j keyPath conds = Fail e"
  from assms(1,2) f have "snd (evaluate conds start keyPath []) = Fail e"
    by (auto simp: FindAllWithCondition_def split: prod.splits outcome.splits)
  with assms(3) show False
    using evaluate_map_never_fails [of conds _ keyPath "[]" e]
      evaluate_slice_never_fails [of conds _ 0 keyPath "[]" e]
    by auto
qed

text \<open>
  C5 at a concrete input. The operator \<open>foo\<close> is unknown, and evaluating it on the leaf
  fails; started at \<open>a\<close>, above the leaf, \<open>FindAllWithCondition\<close> returns no error and no
  path; started at the leaf itself it returns the error.
\<close>

theorem C5_nested_error_swallowed:
  "evaluateCondition (F64 1) (Plain (Obj [(''foo'', F64 1)])) = Fail (UnsupportedOperator ''foo'') \<and>
   FindAllWithCondition [(''a'', Obj [(''b'', F64 1)])] ''a'' (Plain (Obj [(''foo'', F64 1)]))
     = Return [] \<and>
   FindAllWithCondition [(''a'', Obj [(''b'', F64 1)])] ''a.b'' (Plain (Obj [(''foo'', F64 1)]))
     = Fail (UnsupportedOperator ''foo'')"
  by code_simp

section \<open>The scenario of the specification\<close>

text \<open>
  C4, as the code has it. On the document \<open>{"a":{"b":1,"c":[10,20,30]}}\<close>:
  \<open>Find("a.c[1]")\<close> returns 20; \<open>Add("a.c[-1]", 40)\<close> makes \<open>a.c\<close> equal
  \<open>[10,20,30,40]\<close>; \<open>Remove("a.c.0")\<close> then makes it \<open>[20,30,40]\<close>; and
  \<open>FindAllWithCondition("a", {"gt": 25})\<close> on the result returns the paths
  \<open>a.c[1]\<close> and \<open>a.c[2]\<close>, in this order and with the start path in front, whichever
  of the keys \<open>b\<close> and \<open>c\<close> the map yields first. The numbers of the JSON text are
  float64; the Go literals 40 and 25 are ints, and the paths are the same when both are
  float64.
\<close>

theorem C4_scenario:
  "Find [(''a'', Obj [(''b'', F64 1), (''c'', Arr [F64 10, F64 20, F64 30])])] ''a.c[1]''
     = Return (F64 20) \<and>
   Add [(''a'', Obj [(''b'', F64 1), (''c'', Arr [F64 10, F64 20, F64 30])])] ''a.c[-1]'' (I KInt 40)
     = ([(''a'', Obj [(''b'', F64 1), (''c'', Arr [F64 10, F64 20, F64 30, I KInt 40])])], Return ()) \<and>
   Remove [(''a'', Obj [(''b'', F64 1), (''c'', Arr [F64 10, F64 20, F64 30, I KInt 40])])] ''a.c.0''
     = ([(''a'', Obj [(''b'', F64 1), (''c'', Arr [F64 20, F64 30, I KInt 40])])], Return ()) \<and>
   FindAllWithCondition [(''a'', Obj [(''b'', F64 1), (''c'', Arr [F64 20, F64 30, I KInt 40])])]
       ''a'' (Plain (Obj [(''gt'', I KInt 25)]))
     = Return [''a.c[1]'', ''a.c[2]''] \<and>
   FindAllWithCondition [(''a'', Obj [(''c'', Arr [F64 20, F64 30, I KInt 40]), (''b'', F64 1)])]
       ''a'' (Plain (Obj [(''gt'', I KInt 25)]))
     = Return [''a.c[1]'', ''a.c[2]''] \<and>
   FindAllWithCondition [(''a'', Obj [(''b'', F64 1), (''c'', Arr [F64 20, F64 30, F64 40])])]
       ''a'' (Plain (Obj [(''gt'', F64 25)]))
     = Return [''a.c[1]'', ''a.c[2]'']"
  by code_simp

text \<open>
  C4, as stated, fails in its last part: the paths returned are not \<open>c[1]\<close> and
  \<open>c[2]\<close>.
\<close>

theorem C4_paths_counterexample:
  "FindAllWithCondition [(''a'', Obj [(''b'', F64 1), (''c'', Arr [F64 20, F64 30, I KInt 40])])]
       ''a'' (Plain (Obj [(''gt'', I KInt 25)]))
     \<noteq> Return [''c[1]'', ''c[2]'']"
  by code_simp

section \<open>Reading and writing at a position\<close>

lemma get_at_append:
  "get_at (ps @ qs) v = (case get_at ps v of Some c \<Rightarrow> get_at qs c | None \<Rightarrow> None)"
  by (induction ps v rule: get_at.induct) (auto split: option.splits)

lemma get_at_upd_at:
  "get_at ps v = Some c \<Longrightarrow> get_at ps (upd_at ps f v) = Some (f c)"
  by (induction ps v rule: get_at.induct) (auto split: option.splits if_splits simp: update_conv')

lemma upd_at_Obj:
  "(\<And>m. \<exists>m'. f (Obj m) = Obj m') \<Longrightarrow> \<exists>m'. upd_at ps f (Obj m) = Obj m'"
  by (cases ps; cases "hd ps") (auto split: option.splits)

lemma doc_upd_Obj:
  assumes "\<And>m. \<exists>m'. f (Obj m) = Obj m'"
  shows "Obj (doc_upd j ps f) = upd_at ps f (Obj j)"
  using upd_at_Obj [of f ps j, OF assms] by (auto simp: doc_upd_def)

lemma doc_upd_set_key:
  "Obj (doc_upd j ps (set_key k x)) = upd_at ps (set_key k x) (Obj j)"
  by (rule doc_upd_Obj) (simp add: set_key_def)

lemma doc_upd_set_elem:
  "Obj (doc_upd j ps (set_elem i x)) = upd_at ps (set_elem i x) (Obj j)"
  by (rule doc_upd_Obj) (simp add: set_elem_def)

lemma get_at_doc_upd_set_key:
  "get_at ps (Obj j) = Some (Obj m) \<Longrightarrow>
   get_at ps (Obj (doc_upd j ps (set_key k x))) = Some (Obj (AList.update k x m))"
  using get_at_upd_at [of ps "Obj j" "Obj m" "set_key k x"]
  by (simp add: doc_upd_set_key set_key_def)

lemma get_at_doc_upd_set_elem:
  "get_at ps (Obj j) = Some (Arr xs) \<Longrightarrow>
   get_at ps (Obj (doc_upd j ps (set_elem i x))) = Some (Arr (xs[i := x]))"
  using get_at_upd_at [of ps "Obj j" "Arr xs" "set_elem i x"]
  by (simp add: doc_upd_set_elem set_elem_def)

lemma get_at_snoc_Key:
  "get_at (ps @ [Key k]) v = Some c \<longleftrightarrow> (\<exists>m. get_at ps v = Some (Obj m) \<and> map_of m k = Some c)"
  apply (simp add: get_at_append split: option.splits)
  apply (auto)
  subgoal for x by (cases x) (auto split: option.splits)
  done

lemma find_loop_keys:
  "get_at (map Key ks) v = Some c \<Longrightarrow> find_loop v (ks @ rest) = find_loop c rest"
proof (induction ks arbitrary: v)
  case Nil
  then show ?case by simp
next
  case (Cons k ks)
  then show ?case by (cases v) (auto split: option.splits)
qed

section \<open>Remove on a Sequence\<close>

lemma get_at_keys_Obj:
  assumes "get_at (map Key pre) c = Some (Obj cm)"
  obtains m where "c = Obj m"
  using assms by (cases pre; cases c) auto

lemma remove_walk_loop:
  "remove_walk pos current (pre @ [key, t]) = Some (pos', current') \<Longrightarrow>
   remove_loop j pos current parent (pre @ [key, t]) =
   remove_loop j pos' current' parent [key, t]"
proof (induction pre arbitrary: pos current)
  case Nil
  then show ?case by simp
next
  case (Cons k pre)
  obtain nxt r rest where nr: "pre @ [key, t] = nxt # r # rest"
    by (cases pre; cases "tl pre") auto
  show ?case
  proof (cases "map_of current k")
    case None
    with Cons.prems nr show ?thesis by simp
  next
    case (Some c)
    show ?thesis
    proof (cases c)
      case (Obj m)
      with Cons.prems nr Some
      have w: "remove_walk (pos @ [Key k]) m (pre @ [key, t]) = Some (pos', current')"
        by simp
      have "remove_loop j pos current parent ((k # pre) @ [key, t]) =
            remove_loop j (pos @ [Key k]) m parent (pre @ [key, t])"
        using Some Obj nr by simp
      with Cons.IH [OF w] show ?thesis by simp
    next
      case (Arr xs)
      define index where "index =
        (if snd (atoi nxt) = None \<and> fst (atoi nxt) = - 1 then int (length xs) - 1
         else fst (atoi nxt))"
      from Cons.prems nr Some Arr have rng: "\<not> (index < 0 \<or> int (length xs) \<le> index)"
        by (auto simp: index_def Let_def split: if_splits)
      from Cons.prems nr Some Arr rng obtain m where m: "xs ! nat index = Obj m"
        by (cases "xs ! nat index") (auto simp: index_def Let_def split: if_splits)
      from Cons.prems nr Some Arr rng m
      have w: "remove_walk (pos @ [Key k, Index (nat index)]) m (pre @ [key, t])
                 = Some (pos', current')"
        by (auto simp: index_def Let_def split: if_splits)
      have "remove_loop j pos current parent ((k # pre) @ [key, t]) =
            remove_loop j (pos @ [Key k, Index (nat index)]) m parent (pre @ [key, t])"
        using Some Arr nr rng m by (auto simp: index_def Let_def)
      with Cons.IH [OF w] show ?thesis by simp
    qed (use Cons.prems nr Some in simp_all)
  qed
qed

lemma remove_walk_get_at:
  "remove_walk pos current (pre @ [key, t]) = Some (pos', current') \<Longrightarrow>
   get_at pos v = Some (Obj current) \<Longrightarrow> get_at pos' v = Some (Obj current')"
proof (induction pre arbitrary: pos current)
  case Nil
  then show ?case by simp
next
  case (Cons k pre)
  obtain nxt r rest where nr: "pre @ [key, t] = nxt # r # rest"
    by (cases pre; cases "tl pre") auto
  show ?case
  proof (cases "map_of current k")
    case None
    with Cons.prems nr show ?thesis by simp
  next
    case (Some c)
    show ?thesis
    proof (cases c)
      case (Obj m)
      with Cons.prems nr Some
      have w: "remove_walk (pos @ [Key k]) m (pre @ [key, t]) = Some (pos', current')"
        by simp
      have "get_at (pos @ [Key k]) v = Some (Obj m)"
        using Cons.prems(2) Some Obj by (simp add: get_at_append)
      from Cons.IH [OF w this] show ?thesis .
    next
      case (Arr xs)
      define index where "index =
        (if snd (atoi nxt) = None \<and> fst (atoi nxt) = - 1 then int (length xs) - 1
         else fst (atoi nxt))"
      from Cons.prems nr Some Arr have rng: "\<not> (index < 0 \<or> int (length xs) \<le> index)"
        by (auto simp: index_def Let_def split: if_splits)
      from Cons.prems nr Some Arr rng obtain m where m: "xs ! nat index = Obj m"
        by (cases "xs ! nat index") (auto simp: index_def Let_def split: if_splits)
      from Cons.prems nr Some Arr rng m
      have w: "remove_walk (pos @ [Key k, Index (nat index)]) m (pre @ [key, t])
                 = Some (pos', current')"
        by (auto simp: index_def Let_def split: if_splits)
      have "nat index < length xs" using rng by linarith
      then have "get_at (pos @ [Key k, Index (nat index)]) v = Some (Obj m)"
        using Cons.prems(2) Some Arr m by (simp add: get_at_append)
      from Cons.IH [OF w this] show ?thesis .
    qed (use Cons.prems nr Some in simp_all)
  qed
qed

lemma remove_walk_keys:
  "get_at (map Key pre) (Obj current) = Some (Obj cm) \<Longrightarrow>
   remove_walk pos current (pre @ [key, t]) = Some (pos @ map Key pre, cm)"
proof (induction pre arbitrary: pos current)
  case Nil
  then show ?case by simp
next
  case (Cons k pre)
  from Cons.prems obtain c where c: "map_of current k = Some c"
    and gc: "get_at (map Key pre) c = Some (Obj cm)"
    by (auto split: option.splits)
  from gc obtain m where "c = Obj m"
    by (rule get_at_keys_Obj)
  with c gc have m: "map_of current k = Some (Obj m)"
    and g: "get_at (map Key pre) (Obj m) = Some (Obj cm)"
    by simp_all
  obtain nxt r rest where nr: "pre @ [key, t] = nxt # r # rest"
    by (cases pre; cases "tl pre") auto
  have "remove_walk pos current ((k # pre) @ [key, t]) =
        remove_walk (pos @ [Key k]) m (pre @ [key, t])"
    using m nr by simp
  with Cons.IH [OF g, of "pos @ [Key k]"] show ?case by simp
qed

lemma remove_loop_sequence:
  assumes "map_of cm key = Some (Arr xs)"
    and "idx = (if snd (atoi t) = None \<and> fst (atoi t) = - 1 then int (length xs) - 1 else fst (atoi t))"
    and "0 \<le> idx" and "idx < int (length xs)"
  shows "remove_loop j pos cm parent [key, t] =
         (doc_upd j pos (set_key key (Arr (take (nat idx) xs @ drop (Suc (nat idx)) xs))), Return ())"
  using assms by (simp add: Let_def)

lemma Remove_sequence:
  assumes keys: "path_keys P = pre @ [key, t]"
    and par: "remove_walk [] j (path_keys P) = Some (pos, parent)"
    and xs: "map_of parent key = Some (Arr xs)"
    and idx: "idx = (if snd (atoi t) = None \<and> fst (atoi t) = - 1 then int (length xs) - 1 else fst (atoi t))"
    and lo: "0 \<le> idx" and hi: "idx < int (length xs)"
  shows "Remove j P =
         (doc_upd j pos (set_key key (Arr (take (nat idx) xs @ drop (Suc (nat idx)) xs))),
          Return ())"
  unfolding Remove_def
  using remove_walk_loop [OF par [unfolded keys], of j None]
    remove_loop_sequence [OF xs idx lo hi, of j pos None]
  by (simp add: keys)

lemma Remove_sequence_Fail:
  assumes keys: "path_keys P = pre @ [key, t]"
    and par: "remove_walk [] j (path_keys P) = Some (pos, parent)"
    and xs: "map_of parent key = Some (Arr xs)"
    and idx: "idx = (if snd (atoi t) = None \<and> fst (atoi t) = - 1 then int (length xs) - 1 else fst (atoi t))"
    and out: "idx < 0 \<or> int (length xs) \<le> idx"
  shows "Remove j P = (j, Fail (IndexOutOfRange idx))"
  unfolding Remove_def
  using remove_walk_loop [OF par [unfolded keys], of j None] xs idx out
  by (simp add: keys Let_def)

lemma atoi_syntax_zero: "snd (atoi t) = Some ErrSyntax \<Longrightarrow> fst (atoi t) = 0"
  by (auto simp: atoi_def Let_def split: if_splits prod.splits option.splits numerror.splits)

text \<open>
  Where the steps of the path before the last two are keys of nested Mappings that lead to
  the map \<open>parent\<close>, and \<open>parent\<close> holds a Sequence under the next key, the splice is
  right: for a last token that is an integer whose index (the last one for \<open>-1\<close>) is in
  range, \<open>Remove\<close> succeeds, \<open>parent\<close> afterwards holds under that key the old Sequence
  without that element, and nothing else in \<open>parent\<close> has changed.
\<close>

lemma Remove_splices_index:
  assumes keys: "path_keys P = pre @ [key, t]"
    and par: "get_at (map Key pre) (Obj j) = Some (Obj parent)"
    and xs: "map_of parent key = Some (Arr xs)"
    and tok: "atoi t = (i, None)"
    and idx: "idx = (if i = - 1 then int (length xs) - 1 else i)"
    and lo: "0 \<le> idx" and hi: "idx < int (length xs)"
  shows "\<exists>j'. Remove j P = (j', Return ()) \<and>
           get_at (map Key pre) (Obj j') =
             Some (Obj (AList.update key (Arr (take (nat idx) xs @ drop (Suc (nat idx)) xs)) parent)) \<and>
           get_at (map Key pre @ [Key key]) (Obj j') =
             Some (Arr (take (nat idx) xs @ drop (Suc (nat idx)) xs)) \<and>
           length (take (nat idx) xs @ drop (Suc (nat idx)) xs) = length xs - 1"
proof -
  let ?ys = "take (nat idx) xs @ drop (Suc (nat idx)) xs"
  let ?j' = "doc_upd j (map Key pre) (set_key key (Arr ?ys))"
  have i: "idx = (if snd (atoi t) = None \<and> fst (atoi t) = - 1 then int (length xs) - 1 else fst (atoi t))"
    using tok idx by simp
  have w: "remove_walk [] j (path_keys P) = Some (map Key pre, parent)"
    unfolding keys using remove_walk_keys [OF par, of "[]" key t] by simp
  have r: "Remove j P = (?j', Return ())"
    by (rule Remove_sequence [OF keys w xs i lo hi])
  have p: "get_at (map Key pre) (Obj ?j') = Some (Obj (AList.update key (Arr ?ys) parent))"
    by (rule get_at_doc_upd_set_key [OF par])
  have s: "get_at (map Key pre @ [Key key]) (Obj ?j') = Some (Arr ?ys)"
    using p by (simp add: get_at_append update_conv')
  have l: "length ?ys = length xs - 1"
    using lo hi by auto
  from r p s l show ?thesis by blast
qed

text \<open>
  In the same situation, with a non-empty Sequence and a last token that is not an integer
  (\<open>strconv.Atoi\<close> reports a syntax error): the index stays 0 and the first element is
  removed.
\<close>

lemma Remove_non_integer_token:
  assumes keys: "path_keys P = pre @ [key, t]"
    and par: "get_at (map Key pre) (Obj j) = Some (Obj parent)"
    and xs: "map_of parent key = Some (Arr xs)"
    and ne: "xs \<noteq> []"
    and tok: "snd (atoi t) = Some ErrSyntax"
  shows "fst (atoi t) = 0 \<and>
         (\<exists>j'. Remove j P = (j', Return ()) \<and>
            get_at (map Key pre @ [Key key]) (Obj j') = Some (Arr (tl xs)))"
proof -
  let ?j' = "doc_upd j (map Key pre) (set_key key (Arr (take (nat 0) xs @ drop (Suc (nat 0)) xs)))"
  have z: "fst (atoi t) = 0" by (rule atoi_syntax_zero [OF tok])
  have i: "(0::int) = (if snd (atoi t) = None \<and> fst (atoi t) = - 1 then int (length xs) - 1 else fst (atoi t))"
    using tok z by simp
  have hi: "(0::int) < int (length xs)" using ne by simp
  have w: "remove_walk [] j (path_keys P) = Some (map Key pre, parent)"
    unfolding keys using remove_walk_keys [OF par, of "[]" key t] by simp
  have r: "Remove j P = (?j', Return ())"
    by (rule Remove_sequence [OF keys w xs i _ hi]) simp
  have p: "get_at (map Key pre) (Obj ?j') = Some (Obj (AList.update key (Arr (take (nat 0) xs @ drop (Suc (nat 0)) xs)) parent))"
    by (rule get_at_doc_upd_set_key [OF par])
  have s: "get_at (map Key pre @ [Key key]) (Obj ?j') = Some (Arr (tl xs))"
    using p by (simp add: get_at_append update_conv' drop_Suc)
  from z r s show ?thesis by blast
qed

text \<open>
  C9 at a concrete input. In \<open>{"a":[{"c":[1,2]}]}\<close> the path \<open>a[0].c\<close> leads to a
  Sequence of length 2 whose parent is a Mapping, and index 0 is in range: \<open>Find\<close> reads
  the Sequence and its first element. \<open>Remove("a[0].c[0]")\<close> returns an error and leaves the
  document as it was: after stepping into the element 0 of \<open>a\<close> the loop looks the token
  \<open>0\<close> up again, as a key of that element.
\<close>

theorem C9_remove_nested_sequence:
  "Find [(''a'', Arr [Obj [(''c'', Arr [F64 1, F64 2])]])] ''a[0].c''
     = Return (Arr [F64 1, F64 2]) \<and>
   Find [(''a'', Arr [Obj [(''c'', Arr [F64 1, F64 2])]])] ''a[0].c[0]'' = Return (F64 1) \<and>
   Remove [(''a'', Arr [Obj [(''c'', Arr [F64 1, F64 2])]])] ''a[0].c[0]''
     = ([(''a'', Arr [Obj [(''c'', Arr [F64 1, F64 2])]])], Fail (TypeMismatch ''0''))"
  by code_simp


lemma nth_splice:
  "Suc i < length xs \<Longrightarrow> (take i xs @ drop (Suc i) xs) ! i = xs ! Suc i"
  by (simp add: nth_append)

text \<open>
  C3, as the code has it. Let the steps of \<open>P\<close> before the last two be keys of nested
  Mappings that lead to the map \<open>parent\<close>, let \<open>parent\<close> hold a Sequence \<open>xs\<close> under
  the next key, and let the last token be an integer \<open>i\<close>. If \<open>Remove(D, P)\<close> succeeds,
  then \<open>Find(D, P)\<close> on the result fails with IndexOutOfRange when the element removed was
  the last one (\<open>i\<close> is \<open>-1\<close> or the last index), and otherwise returns the element that
  followed the removed one and has moved into its place.
\<close>

theorem C3_remove_then_find:
  assumes keys: "path_keys P = pre @ [key, t]"
    and par: "get_at (map Key pre) (Obj j) = Some (Obj parent)"
    and xs: "map_of parent key = Some (Arr xs)"
    and tok: "atoi t = (i, None)"
    and rem: "Remove j P = (j', Return ())"
  shows "Find j' P =
         (if i = - 1 \<or> i = int (length xs) - 1 then Fail (IndexOutOfRange i)
          else Return (xs ! nat (i + 1)))"
proof -
  define idx where "idx = (if i = - 1 then int (length xs) - 1 else i)"
  have i: "idx = (if snd (atoi t) = None \<and> fst (atoi t) = - 1 then int (length xs) - 1 else fst (atoi t))"
    using tok by (simp add: idx_def)
  have w: "remove_walk [] j (path_keys P) = Some (map Key pre, parent)"
    unfolding keys using remove_walk_keys [OF par, of "[]" key t] by simp
  have rng: "0 \<le> idx \<and> idx < int (length xs)"
  proof (rule ccontr)
    assume "\<not> (0 \<le> idx \<and> idx < int (length xs))"
    then have "idx < 0 \<or> int (length xs) \<le> idx" by auto
    from Remove_sequence_Fail [OF keys w xs i this] rem show False by simp
  qed
  let ?ys = "take (nat idx) xs @ drop (Suc (nat idx)) xs"
  have j': "j' = doc_upd j (map Key pre) (set_key key (Arr ?ys))"
    using Remove_sequence [OF keys w xs i] rng rem by simp
  have p: "get_at (map Key pre) (Obj j') = Some (Obj (AList.update key (Arr ?ys) parent))"
    unfolding j' by (rule get_at_doc_upd_set_key [OF par])
  have s: "get_at (map Key (pre @ [key])) (Obj j') = Some (Arr ?ys)"
    using p by (simp add: get_at_append update_conv')
  have P: "P \<noteq> []"
    using keys path_keys_Nil by auto
  have "Find j' P = find_loop (Obj j') ((pre @ [key]) @ [t])"
    using P keys by (simp add: Find_def)
  also have "\<dots> = find_loop (Arr ?ys) [t]"
    by (rule find_loop_keys [OF s])
  finally have F: "Find j' P = find_loop (Arr ?ys) [t]" .
  have l: "length ?ys = length xs - 1"
    using rng by auto
  show ?thesis
  proof (cases "i = - 1")
    case True
    then show ?thesis using F tok by simp
  next
    case False
    then have ii: "idx = i" by (simp add: idx_def)
    show ?thesis
    proof (cases "i = int (length xs) - 1")
      case True
      then show ?thesis using F tok l rng ii by simp
    next
      case False
      then have lt: "Suc (nat i) < length xs" using rng ii by auto
      have "?ys ! nat i = xs ! Suc (nat i)"
        using nth_splice [OF lt] ii by simp
      moreover have "nat (i + 1) = Suc (nat i)" using rng ii by auto
      ultimately show ?thesis
        using F tok l rng ii False \<open>i \<noteq> - 1\<close> lt by auto
    qed
  qed
qed

theorem C3_remove_then_find_witness:
  "Remove [(''a'', Obj [(''c'', Arr [F64 10, F64 20, F64 30])])] ''a.c.2''
     = ([(''a'', Obj [(''c'', Arr [F64 10, F64 20])])], Return ()) \<and>
   Find [(''a'', Obj [(''c'', Arr [F64 10, F64 20])])] ''a.c.2'' = Fail (IndexOutOfRange 2) \<and>
   Remove [(''a'', Obj [(''c'', Arr [F64 10, F64 20, F64 30])])] ''a.c.0''
     = ([(''a'', Obj [(''c'', Arr [F64 20, F64 30])])], Return ()) \<and>
   Find [(''a'', Obj [(''c'', Arr [F64 20, F64 30])])] ''a.c.0'' = Return (F64 20)"
proof -
  let ?j = "[(''a'', Obj [(''c'', Arr [F64 10, F64 20, F64 30])])]"
  have k1: "path_keys ''a.c.2'' = [''a''] @ [''c'', ''2'']" by code_simp
  have k2: "path_keys ''a.c.0'' = [''a''] @ [''c'', ''0'']" by code_simp
  have p: "get_at (map Key [''a'']) (Obj ?j) = Some (Obj [(''c'', Arr [F64 10, F64 20, F64 30])])"
    by simp
  have x: "map_of [(''c'', Arr [F64 10, F64 20, F64 30])] ''c'' = Some (Arr [F64 10, F64 20, F64 30])"
    by simp
  have t1: "atoi ''2'' = (2, None)" by code_simp
  have t2: "atoi ''0'' = (0, None)" by code_simp
  have r1: "Remove ?j ''a.c.2'' = ([(''a'', Obj [(''c'', Arr [F64 10, F64 20])])], Return ())"
    by code_simp
  have r2: "Remove ?j ''a.c.0'' = ([(''a'', Obj [(''c'', Arr [F64 20, F64 30])])], Return ())"
    by code_simp
  from C3_remove_then_find [OF k1 p x t1 r1] C3_remove_then_find [OF k2 p x t2 r2] r1 r2
  show ?thesis by simp
qed

text \<open>
  C3, as stated, fails on a Sequence: after \<open>Remove("a.c.0")\<close> on
  \<open>{"a":{"c":[10,20]}}\<close> the read \<open>Find("a.c.0")\<close> succeeds and returns 20. It fails
  too on a path of one step, where \<open>Remove("a")\<close> succeeds and deletes nothing, and on a
  key of a nested Mapping, where \<open>Remove("a.b")\<close> on \<open>{"a":{"b":1},"b":2}\<close> succeeds,
  deletes the \<open>b\<close> of the root and leaves \<open>a.b\<close> readable.
\<close>

theorem C3_shift_counterexample:
  "Remove [(''a'', Obj [(''c'', Arr [F64 10, F64 20])])] ''a.c.0''
     = ([(''a'', Obj [(''c'', Arr [F64 20])])], Return ()) \<and>
   Find [(''a'', Obj [(''c'', Arr [F64 20])])] ''a.c.0'' = Return (F64 20) \<and>
   Remove [(''a'', F64 1)] ''a'' = ([(''a'', F64 1)], Return ()) \<and>
   Find [(''a'', F64 1)] ''a'' = Return (F64 1) \<and>
   Remove [(''a'', Obj [(''b'', F64 1)]), (''b'', F64 2)] ''a.b''
     = ([(''a'', Obj [(''b'', F64 1)])], Return ()) \<and>
   Find [(''a'', Obj [(''b'', F64 1)])] ''a.b'' = Return (F64 1)"
  by code_simp

section \<open>Add, then Find\<close>

lemma reattach_Return:
  assumes r: "reattach j pre cur = (j', Return ())"
    and g: "get_at (map Key pre) (Obj j) = Some c0"
  shows "get_at (map Key pre) (Obj j') = Some cur"
proof -
  from r have len: "2 \<le> length pre"
    by (auto simp: reattach_def Let_def split: if_splits)
  then have bl: "hd pre # butlast (tl pre) = butlast pre"
    by (cases pre) auto
  from len have pre: "pre = butlast pre @ [last pre]"
    by (cases pre) auto
  from r len bl have j': "j' = doc_upd j (map Key (butlast pre)) (set_key (last pre) cur)"
    by (auto simp: reattach_def Let_def split: if_splits option.splits)
  from g pre have "get_at (map Key (butlast pre) @ [Key (last pre)]) (Obj j) = Some c0"
    by (metis list.simps(8,9) map_append)
  then obtain gm where gm: "get_at (map Key (butlast pre)) (Obj j) = Some (Obj gm)"
    by (auto simp: get_at_snoc_Key)
  have "get_at (map Key (butlast pre)) (Obj j')
          = Some (Obj (AList.update (last pre) cur gm))"
    unfolding j' by (rule get_at_doc_upd_set_key [OF gm])
  then have "get_at (map Key (butlast pre) @ [Key (last pre)]) (Obj j') = Some cur"
    by (simp add: get_at_snoc_Key update_conv')
  then show ?thesis
    using pre by (metis list.simps(8,9) map_append)
qed

lemma add_loop_last:
  assumes a: "add_loop j pre pos current [key] v = (j', Return ())"
    and pos: "pos = map Key pre"
    and g: "get_at (map Key pre) (Obj j) = Some current"
  shows "\<exists>c. get_at (map Key pre) (Obj j') = Some c \<and>
           (case c of
              Obj m \<Rightarrow> map_of m key = Some v
            | Arr ys \<Rightarrow>
                (\<exists>i. atoi key = (i, None) \<and>
                   (if i = - 1 then ys \<noteq> [] \<and> last ys = v
                    else 0 \<le> i \<and> i < int (length ys) \<and> ys ! nat i = v))
            | _ \<Rightarrow> True)"
proof (cases current)
  case (Obj parent)
  with a pos have j': "j' = doc_upd j (map Key pre) (set_key key v)" by simp
  have "get_at (map Key pre) (Obj j') = Some (Obj (AList.update key v parent))"
    unfolding j' using g Obj by (intro get_at_doc_upd_set_key) simp
  then show ?thesis by (simp add: update_conv')
next
  case (Arr parent)
  from a Arr obtain i where tok: "atoi key = (i, None)"
    by (cases "atoi key") (auto split: option.splits)
  have ne: "pre \<noteq> []"
    using g Arr by (cases pre) auto
  show ?thesis
  proof (cases "i = - 1")
    case True
    with a Arr tok ne have "reattach j pre (Arr (parent @ [v])) = (j', Return ())" by simp
    from reattach_Return [OF this g]
    show ?thesis using tok True by simp
  next
    case False
    with a Arr tok have rng: "0 \<le> i \<and> i < int (length parent)"
      by (auto split: if_splits)
    let ?j1 = "doc_upd j pos (set_elem (nat i) v)"
    have g1: "get_at (map Key pre) (Obj ?j1) = Some (Arr (parent[nat i := v]))"
      unfolding pos using g Arr by (intro get_at_doc_upd_set_elem) simp
    from a Arr tok False rng ne
    have "reattach ?j1 pre (Arr (parent[nat i := v])) = (j', Return ())"
      by (simp add: Let_def)
    moreover have "nat i < length parent"
      using rng by linarith
    then have "parent[nat i := v] ! nat i = v"
      by simp
    ultimately show ?thesis
      using reattach_Return [OF _ g1] tok False rng by simp
  qed
next
  case Nil
  with a have "j' = j" by simp
  then show ?thesis using g Nil by simp
next
  case (Bool x)
  with a have "j' = j" by simp
  then show ?thesis using g Bool by simp
next
  case (Str x)
  with a have "j' = j" by simp
  then show ?thesis using g Str by simp
next
  case (F64 x)
  with a have "j' = j" by simp
  then show ?thesis using g F64 by simp
next
  case (F32 x)
  with a have "j' = j" by simp
  then show ?thesis using g F32 by simp
next
  case (I k x)
  with a have "j' = j" by simp
  then show ?thesis using g I by simp
next
  case (U k x)
  with a have "j' = j" by simp
  then show ?thesis using g U by simp
qed

lemma add_loop_Return:
  assumes "add_loop j pre pos current ks v = (j', Return ())"
    and "ks \<noteq> []"
    and "pos = map Key pre"
    and "get_at (map Key pre) (Obj j) = Some current"
  shows "\<exists>c. get_at (map Key (pre @ butlast ks)) (Obj j') = Some c \<and>
           (case c of
              Obj m \<Rightarrow> map_of m (last ks) = Some v
            | Arr ys \<Rightarrow>
                (\<exists>i. atoi (last ks) = (i, None) \<and>
                   (if i = - 1 then ys \<noteq> [] \<and> last ys = v
                    else 0 \<le> i \<and> i < int (length ys) \<and> ys ! nat i = v))
            | _ \<Rightarrow> True)"
  using assms
proof (induction ks arbitrary: j pre pos current)
  case Nil
  then show ?case by simp
next
  case (Cons key ks)
  show ?case
  proof (cases ks)
    case Nil
    with Cons.prems(1) have "add_loop j pre pos current [key] v = (j', Return ())"
      by simp
    note last = add_loop_last [OF this Cons.prems(3) Cons.prems(4)]
    have e1: "pre @ butlast (key # ks) = pre" using Nil by simp
    have e2: "last (key # ks) = key" using Nil by simp
    show ?thesis unfolding e1 e2 by (rule last)
  next
    case (Cons k2 ks')
    note ks = Cons
    from Cons.prems(1) ks obtain cm where cur: "current = Obj cm"
      by (cases current) auto
    have bl: "pre @ butlast (key # ks) = (pre @ [key]) @ butlast ks"
      using ks by simp
    have la: "last (key # ks) = last ks"
      using ks by simp
    show ?thesis
    proof (cases "map_of cm key")
      case (Some nxt)
      with Cons.prems(1) ks cur Cons.prems(3)
      have a: "add_loop j (pre @ [key]) (pos @ [Key key]) nxt ks v = (j', Return ())"
        by simp
      have g: "get_at (map Key (pre @ [key])) (Obj j) = Some nxt"
        using Cons.prems(4) cur Some by (simp add: get_at_append)
      from Cons.IH [OF a _ _ g] ks Cons.prems(3)
      show ?thesis unfolding bl la by simp
    next
      case None
      from Cons.prems(1) ks cur None obtain n e where tok: "atoi key = (n, Some e)"
        by (cases "atoi key") (auto split: option.splits)
      let ?j1 = "doc_upd j pos (set_key key (Obj []))"
      from Cons.prems(1) ks cur None tok
      have a: "add_loop ?j1 (pre @ [key]) (pos @ [Key key]) (Obj []) ks v = (j', Return ())"
        by simp
      have "get_at (map Key pre) (Obj ?j1) = Some (Obj (AList.update key (Obj []) cm))"
        unfolding Cons.prems(3) using Cons.prems(4) cur by (intro get_at_doc_upd_set_key) simp
      then have g: "get_at (map Key (pre @ [key])) (Obj ?j1) = Some (Obj [])"
        by (simp add: get_at_append update_conv')
      from Cons.IH [OF a _ _ g] ks Cons.prems(3)
      show ?thesis unfolding bl la by simp
    qed
  qed
qed

text \<open>
  C1, as the code has it. Let \<open>Add(D, P, V)\<close> succeed on a non-empty path \<open>P\<close>, and
  let \<open>c\<close> be the node that the steps of \<open>P\<close> before the last lead to in the resulting
  document, a Mapping or a Sequence. Then \<open>Find(D, P)\<close> on the result returns \<open>V\<close>,
  except when \<open>c\<close> is a Sequence and the last token is \<open>-1\<close>: then \<open>Find(D, P)\<close> fails
  with IndexOutOfRange, \<open>V\<close> is the last element of \<open>c\<close>, and \<open>Find\<close> returns it at
  every token that denotes the last index of \<open>c\<close>.
\<close>

theorem C1_add_then_find:
  assumes add: "Add j P v = (j', Return ())"
    and ne: "P \<noteq> []"
    and c: "get_at (map Key (butlast (path_keys P))) (Obj j') = Some c"
    and cont: "(\<exists>m. c = Obj m) \<or> (\<exists>ys. c = Arr ys)"
  shows "if (\<exists>ys. c = Arr ys) \<and> atoi (last (path_keys P)) = (- 1, None)
         then Find j' P = Fail (IndexOutOfRange (- 1)) \<and>
              (\<exists>ys. c = Arr ys \<and> ys \<noteq> [] \<and> last ys = v \<and>
                 (\<forall>t. atoi t = (int (length ys) - 1, None) \<longrightarrow>
                    find_loop (Obj j') (butlast (path_keys P) @ [t]) = Return v))
         else Find j' P = Return v"
proof -
  let ?ks = "path_keys P"
  have kne: "?ks \<noteq> []" by (rule path_keys_ne)
  from add have a: "add_loop j [] [] (Obj j) ?ks v = (j', Return ())"
    by (simp add: Add_def)
  from add_loop_Return [OF a kne] c
  have post: "case c of
        Obj m \<Rightarrow> map_of m (last ?ks) = Some v
      | Arr ys \<Rightarrow>
          (\<exists>i. atoi (last ?ks) = (i, None) \<and>
             (if i = - 1 then ys \<noteq> [] \<and> last ys = v
              else 0 \<le> i \<and> i < int (length ys) \<and> ys ! nat i = v))
      | _ \<Rightarrow> True"
    by auto
  have F: "Find j' P = find_loop c [last ?ks]"
  proof -
    have "Find j' P = find_loop (Obj j') (butlast ?ks @ [last ?ks])"
      using ne kne by (simp add: Find_def)
    also have "\<dots> = find_loop c [last ?ks]"
      by (rule find_loop_keys [OF c])
    finally show ?thesis .
  qed
  from cont show ?thesis
  proof
    assume "\<exists>m. c = Obj m"
    then obtain m where m: "c = Obj m" ..
    with post F show ?thesis by simp
  next
    assume "\<exists>ys. c = Arr ys"
    then obtain ys where ys: "c = Arr ys" ..
    with post obtain i where tok: "atoi (last ?ks) = (i, None)"
      and pi: "if i = - 1 then ys \<noteq> [] \<and> last ys = v
               else 0 \<le> i \<and> i < int (length ys) \<and> ys ! nat i = v"
      by auto
    show ?thesis
    proof (cases "i = - 1")
      case True
      have "find_loop (Obj j') (butlast ?ks @ [t]) = Return v"
        if t: "atoi t = (int (length ys) - 1, None)" for t
      proof -
        have fl: "find_loop (Obj j') (butlast ?ks @ [t]) = find_loop c [t]"
          by (rule find_loop_keys [OF c])
        have "nat (int (length ys) - 1) = length ys - 1"
          by simp
        moreover have "ys \<noteq> []"
          using pi True by simp
        then have "last ys = ys ! (length ys - 1)"
          by (rule last_conv_nth)
        ultimately have "ys ! nat (int (length ys) - 1) = last ys"
          by simp
        then show ?thesis using fl ys t pi True by auto
      qed
      then show ?thesis using F ys tok True pi by auto
    next
      case False
      then show ?thesis using F ys tok pi by auto
    qed
  qed
qed

theorem C1_add_then_find_witness:
  "Add [(''a'', Obj [(''c'', Arr [F64 10, F64 20])])] ''a.c[-1]'' (F64 30)
     = ([(''a'', Obj [(''c'', Arr [F64 10, F64 20, F64 30])])], Return ()) \<and>
   Find [(''a'', Obj [(''c'', Arr [F64 10, F64 20, F64 30])])] ''a.c[-1]''
     = Fail (IndexOutOfRange (- 1)) \<and>
   find_loop (Obj [(''a'', Obj [(''c'', Arr [F64 10, F64 20, F64 30])])]) [''a'', ''c'', ''2'']
     = Return (F64 30) \<and>
   Add [(''a'', Obj [(''c'', Arr [F64 10, F64 20])])] ''a.x.y'' (F64 30)
     = ([(''a'', Obj [(''c'', Arr [F64 10, F64 20]), (''x'', Obj [(''y'', F64 30)])])], Return ()) \<and>
   Find [(''a'', Obj [(''c'', Arr [F64 10, F64 20]), (''x'', Obj [(''y'', F64 30)])])] ''a.x.y''
     = Return (F64 30)"
proof -
  let ?j = "[(''a'', Obj [(''c'', Arr [F64 10, F64 20])])]"
  let ?j1 = "[(''a'', Obj [(''c'', Arr [F64 10, F64 20, F64 30])])]"
  let ?j2 = "[(''a'', Obj [(''c'', Arr [F64 10, F64 20]), (''x'', Obj [(''y'', F64 30)])])]"
  have k1: "path_keys ''a.c[-1]'' = [''a'', ''c'', ''-1'']" by code_simp
  have k2: "path_keys ''a.x.y'' = [''a'', ''x'', ''y'']" by code_simp
  have t1: "atoi ''-1'' = (- 1, None)" by code_simp
  have t2: "atoi ''2'' = (2, None)" by code_simp
  have t3: "atoi ''y'' \<noteq> (- 1, None)" by code_simp
  have a1: "Add ?j ''a.c[-1]'' (F64 30) = (?j1, Return ())" by code_simp
  have c1: "get_at (map Key (butlast (path_keys ''a.c[-1]''))) (Obj ?j1)
              = Some (Arr [F64 10, F64 20, F64 30])"
    unfolding k1 by simp
  have a2: "Add ?j ''a.x.y'' (F64 30) = (?j2, Return ())" by code_simp
  have c2: "get_at (map Key (butlast (path_keys ''a.x.y''))) (Obj ?j2)
              = Some (Obj [(''y'', F64 30)])"
    unfolding k2 by simp
  have r1: "Find ?j1 ''a.c[-1]'' = Fail (IndexOutOfRange (- 1)) \<and>
            find_loop (Obj ?j1) [''a'', ''c'', ''2''] = Return (F64 30)"
    using C1_add_then_find [OF a1 _ c1] k1 t1 t2 by simp
  have r2: "Find ?j2 ''a.x.y'' = Return (F64 30)"
    using C1_add_then_find [OF a2 _ c2] k2 t3 by simp
  from a1 a2 r1 r2 show ?thesis by simp
qed

text \<open>
  C1, as stated, fails at the empty path, which the path grammar allows:
  \<open>Add(D, "", 2)\<close> succeeds and stores 2 under the empty key, and \<open>Find(D, "")\<close> returns
  the whole document. It fails too where the step before the last resolves to a scalar:
  on \<open>{"a":1}\<close> the call \<open>Add(D, "a.b", 2)\<close> succeeds and writes nothing, and
  \<open>Find(D, "a.b")\<close> returns 1.
\<close>

theorem C1_empty_path_counterexample:
  "Add [(''a'', F64 1)] '''' (F64 2) = ([(''a'', F64 1), ('''', F64 2)], Return ()) \<and>
   Find [(''a'', F64 1), ('''', F64 2)] '''' = Return (Obj [(''a'', F64 1), ('''', F64 2)]) \<and>
   Add [(''a'', F64 1)] ''a.b'' (F64 2) = ([(''a'', F64 1)], Return ()) \<and>
   Find [(''a'', F64 1)] ''a.b'' = Return (F64 1)"
  by code_simp

end
